theory Spec2Isabelle
  imports Complex_Main "HOL-Library.Product_Lexorder"
begin

section \<open>Dates and the projection axis\<close>

text \<open>
  Modelled from the spec: the date type of the QuantLib module, which the source only
  refers to as \<open>ql.Date\<close>.  A date is the calendar triple (year, month, day) it denotes,
  and dates are ordered chronologically, which on calendar triples is the lexicographic
  order.  The two configured strings \<open>date_init\<close> and \<open>date_end\<close> are taken as the
  dates they denote.
\<close>

type_synonym Date = "nat \<times> nat \<times> nat"

definition is_leap :: "nat \<Rightarrow> bool" where
  "is_leap y = (y mod 4 = 0 \<and> (y mod 100 \<noteq> 0 \<or> y mod 400 = 0))"

text \<open>
  Modelled from the spec: \<open>d + ql.Period('1Y')\<close>, the step "plus one year" of the axis.
  It keeps the day and the month and moves to the next year; 29 February becomes
  28 February when the next year is not a leap year.
\<close>

definition plus_1Y :: "Date \<Rightarrow> Date" where
  "plus_1Y dt = (case dt of (y, m, d) \<Rightarrow>
     if d = 29 \<and> m = 2 \<and> \<not> is_leap (y + 1) then (y + 1, 2, 28) else (y + 1, m, d))"

text \<open>\<open>dates(t)\<close>, the recursion of the source, with the global \<open>date_init\<close> as argument.\<close>

fun dates :: "Date \<Rightarrow> nat \<Rightarrow> Date" where
  "dates d0 0 = d0"
| "dates d0 (Suc t) = plus_1Y (dates d0 t)"

text \<open>
  \<open>t_length()\<close>: the \<open>while True\<close> loop on \<open>t\<close>, started at \<open>t = 0\<close>.  The year of
  \<open>dates(t)\<close> grows by one at each step, which bounds the number of iterations.
\<close>

function t_length_loop :: "Date \<Rightarrow> Date \<Rightarrow> nat \<Rightarrow> nat" where
  "t_length_loop d0 d_end t =
     (if dates d0 t < d_end then t_length_loop d0 d_end (t + 1) else t)"
  by pat_completeness auto
termination
proof (relation "measure (\<lambda>(d0, d_end, t). Suc (fst d_end) - (fst d0 + t))")
  show "wf (measure (\<lambda>(d0, d_end, t). Suc (fst d_end) - (fst d0 + t)))"
    by simp
next
  fix d0 d_end :: Date and t :: nat
  assume less: "dates d0 t < d_end"
  have "fst (plus_1Y dt) = fst dt + 1" for dt
    by (cases dt) (simp add: plus_1Y_def)
  then have "fst (dates d0 t) = fst d0 + t"
    by (induction t) simp_all
  moreover have "fst (dates d0 t) \<le> fst d_end"
    using less by (cases "dates d0 t", cases d_end) (auto simp: less_prod_def)
  ultimately have "fst d0 + t \<le> fst d_end"
    by simp
  then show "((d0, d_end, t + 1), (d0, d_end, t))
      \<in> measure (\<lambda>(d0, d_end, t). Suc (fst d_end) - (fst d0 + t))"
    by simp
qed

declare t_length_loop.simps [simp del]

definition t_length :: "Date \<Rightarrow> Date \<Rightarrow> nat" where
  "t_length d0 d_end = t_length_loop d0 d_end 0"


section \<open>Bucketing of a leg\<close>

text \<open>
  An element of a QuantLib leg, read through \<open>date()\<close> and \<open>amount()\<close>.  Amounts
  are taken as exact reals.
\<close>

record cashflow =
  date :: Date
  amount :: real

datatype error = AssertionError | KeyError

text \<open>
  The inner \<open>while i < len(leg)\<close> loop of \<open>cashflows\<close> for one period \<open>t\<close>, on the
  pair of the result vector and the cashflow index \<open>i\<close>.  A failed \<open>assert\<close> is the
  error value; \<open>break\<close> returns the pair as it stands.
\<close>

function cashflows_while ::
  "Date \<Rightarrow> cashflow list \<Rightarrow> nat \<Rightarrow> real list \<times> nat \<Rightarrow> error + real list \<times> nat" where
  "cashflows_while d0 leg t (result, i) =
     (if i < length leg then
        if i > 0 \<and> \<not> date (leg ! (i - 1)) \<le> date (leg ! i) then Inl AssertionError
        else if dates d0 t \<le> date (leg ! i) \<and> date (leg ! i) < dates d0 (t + 1)
          then cashflows_while d0 leg t (result[t := result ! t + amount (leg ! i)], i + 1)
        else if dates d0 (t + 1) \<le> date (leg ! i) then Inr (result, i)
        else cashflows_while d0 leg t (result, i + 1)
      else Inr (result, i))"
  by pat_completeness auto
termination
  by (relation "measure (\<lambda>(d0, leg, t, result, i). length leg - i)") auto

declare cashflows_while.simps [simp del]

text \<open>The outer \<open>for t in range(t_length())\<close> loop; the index \<open>i\<close> is carried over.\<close>

fun cashflows_for ::
  "Date \<Rightarrow> cashflow list \<Rightarrow> nat list \<Rightarrow> real list \<times> nat \<Rightarrow> error + real list \<times> nat" where
  "cashflows_for d0 leg [] st = Inr st"
| "cashflows_for d0 leg (t # ts) st =
     (case cashflows_while d0 leg t st of
        Inl e \<Rightarrow> Inl e
      | Inr st' \<Rightarrow> cashflows_for d0 leg ts st')"

text \<open>The same two loops in \<open>redemptions\<close>, which has no \<open>assert\<close>.\<close>

function redemptions_while ::
  "Date \<Rightarrow> cashflow list \<Rightarrow> nat \<Rightarrow> real list \<times> nat \<Rightarrow> real list \<times> nat" where
  "redemptions_while d0 leg t (result, i) =
     (if i < length leg then
        if dates d0 t \<le> date (leg ! i) \<and> date (leg ! i) < dates d0 (t + 1)
          then redemptions_while d0 leg t (result[t := result ! t + amount (leg ! i)], i + 1)
        else if dates d0 (t + 1) \<le> date (leg ! i) then (result, i)
        else redemptions_while d0 leg t (result, i + 1)
      else (result, i))"
  by pat_completeness auto
termination
  by (relation "measure (\<lambda>(d0, leg, t, result, i). length leg - i)") auto

declare redemptions_while.simps [simp del]

fun redemptions_for ::
  "Date \<Rightarrow> cashflow list \<Rightarrow> nat list \<Rightarrow> real list \<times> nat \<Rightarrow> real list \<times> nat" where
  "redemptions_for d0 leg [] st = st"
| "redemptions_for d0 leg (t # ts) st =
     redemptions_for d0 leg ts (redemptions_while d0 leg t st)"


section \<open>Reference data and the QuantLib boundary\<close>

text \<open>A row of the \<open>bond_data\<close> table, with the columns of the module's docstring.\<close>

record bond_row =
  settlement_days :: int
  face_value :: int
  issue_date :: Date
  bond_term :: int
  maturity_date :: Date
  tenor :: string
  coupon_rate :: real
  z_spread :: real

text \<open>
  QuantLib objects are the terms that record how the source builds them; what the
  library computes from them is a parameter of the model (the record \<open>quantlib\<close>).
\<close>

datatype Frequency = Annual | Semiannual
datatype DayCounter = Actual360 | Thirty360
datatype Calendar = UnitedStates
datatype BusinessDayConvention = Unadjusted
datatype DateGeneration = Backward
datatype Compounding = Compounded
datatype Interpolator = Linear

datatype YieldTermStructure =
    ZeroCurve "Date list" "real list" DayCounter Calendar Interpolator Compounding Frequency
  | ZeroSpreadedTermStructure YieldTermStructure real Compounding Frequency

datatype PricingEngine = DiscountingBondEngine YieldTermStructure

record Schedule =
  effectiveDate :: Date
  terminationDate :: Date
  schedule_tenor :: Frequency
  calendar :: Calendar
  convention :: BusinessDayConvention
  terminationDateConvention :: BusinessDayConvention
  rule :: DateGeneration
  endOfMonth :: bool

record FixedRateBond =
  settlementDays :: int
  faceAmount :: real
  bond_schedule :: Schedule
  coupons :: "real list"
  paymentDayCounter :: DayCounter
  paymentConvention :: BusinessDayConvention
  pricingEngine :: PricingEngine

text \<open>
  What the library computes: \<open>d + ql.Period(dur)\<close> for a duration label, the two legs
  of a bond, and its notional and clean price, which the library reads at its global
  evaluation date.
\<close>

record quantlib =
  plus_Period :: "Date \<Rightarrow> string \<Rightarrow> Date"
  bond_cashflows :: "FixedRateBond \<Rightarrow> cashflow list"
  bond_redemptions :: "FixedRateBond \<Rightarrow> cashflow list"
  bond_notional :: "Date option \<Rightarrow> FixedRateBond \<Rightarrow> real"
  bond_cleanPrice :: "Date option \<Rightarrow> FixedRateBond \<Rightarrow> real"

text \<open>
  The references of the space: the two dates, the two tables (in row order, keyed by
  bond id and by duration label) and the module \<open>ql\<close>.
\<close>

record model =
  date_init :: Date
  date_end :: Date
  bond_data :: "(nat \<times> bond_row) list"
  zero_curve :: "(string \<times> real) list"
  ql :: quantlib

text \<open>
  \<open>ql.Settings.instance()\<close>, the library's global settings.  \<open>None\<close> is the library's
  initial value of the evaluation date (no date set); any further global state is the
  extension part of the record.
\<close>

record Settings =
  evaluationDate :: "Date option"

text \<open>\<open>bond_data.loc[bond_id]\<close> raises \<open>KeyError\<close> for an id that is not in the table.\<close>

definition loc :: "(nat \<times> bond_row) list \<Rightarrow> nat \<Rightarrow> error + bond_row" where
  "loc table bond_id =
     (case map_of table bond_id of None \<Rightarrow> Inl KeyError | Some row \<Rightarrow> Inr row)"

definition index :: "(nat \<times> bond_row) list \<Rightarrow> nat list" where
  "index table = map fst table"


section \<open>The cells\<close>

text \<open>
  A cell that reaches \<open>riskfree_curve\<close> takes the global settings and returns them
  with its result; a raised exception is \<open>Inl\<close>, with the settings as they are then.
\<close>

definition date_plus :: "quantlib \<Rightarrow> Date \<Rightarrow> string \<Rightarrow> Date" where
  "date_plus q d dur = (if dur = ''1Y'' then plus_1Y d else plus_Period q d dur)"

definition riskfree_curve ::
  "model \<Rightarrow> 's Settings_scheme \<Rightarrow> YieldTermStructure \<times> 's Settings_scheme" where
  "riskfree_curve m s =
     (let s' = s\<lparr>evaluationDate := Some (dates (date_init m) 0)\<rparr>;
          spot_dates = dates (date_init m) 0 #
            map (\<lambda>dur. date_plus (ql m) (dates (date_init m) 0) dur) (map fst (zero_curve m));
          spot_rates = 0 # map snd (zero_curve m)
      in (ZeroCurve spot_dates spot_rates Actual360 UnitedStates Linear Compounded Annual, s'))"

definition discount_curve ::
  "model \<Rightarrow> nat \<Rightarrow> 's Settings_scheme \<Rightarrow> (error + YieldTermStructure) \<times> 's Settings_scheme" where
  "discount_curve m bond_id s =
     (case loc (bond_data m) bond_id of
        Inl e \<Rightarrow> (Inl e, s)
      | Inr row \<Rightarrow>
          (case riskfree_curve m s of
             (curve, s') \<Rightarrow>
               (Inr (ZeroSpreadedTermStructure curve (z_spread row) Compounded Annual), s')))"

definition schedule :: "model \<Rightarrow> nat \<Rightarrow> error + Schedule" where
  "schedule m bond_id =
     (case loc (bond_data m) bond_id of
        Inl e \<Rightarrow> Inl e
      | Inr row \<Rightarrow>
          Inr \<lparr>effectiveDate = issue_date row,
               terminationDate = maturity_date row,
               schedule_tenor = (if tenor row = ''6Y'' then Semiannual else Annual),
               calendar = UnitedStates,
               convention = Unadjusted,
               terminationDateConvention = Unadjusted,
               rule = Backward,
               endOfMonth = False\<rparr>)"

definition fixed_rate_bond ::
  "model \<Rightarrow> nat \<Rightarrow> 's Settings_scheme \<Rightarrow> (error + FixedRateBond) \<times> 's Settings_scheme" where
  "fixed_rate_bond m bond_id s =
     (case loc (bond_data m) bond_id of
        Inl e \<Rightarrow> (Inl e, s)
      | Inr row \<Rightarrow>
          (case schedule m bond_id of
             Inl e \<Rightarrow> (Inl e, s)
           | Inr sched \<Rightarrow>
               (case discount_curve m bond_id s of
                  (Inl e, s') \<Rightarrow> (Inl e, s')
                | (Inr curve, s') \<Rightarrow>
                    (Inr \<lparr>settlementDays = settlement_days row,
                          faceAmount = real_of_int (face_value row),
                          bond_schedule = sched,
                          coupons = [coupon_rate row],
                          paymentDayCounter = Actual360,
                          paymentConvention = Unadjusted,
                          pricingEngine = DiscountingBondEngine curve\<rparr>, s'))))"

definition cashflows ::
  "model \<Rightarrow> nat \<Rightarrow> 's Settings_scheme \<Rightarrow> (error + real list) \<times> 's Settings_scheme" where
  "cashflows m bond_id s =
     (let result = replicate (t_length (date_init m) (date_end m)) 0 in
      case fixed_rate_bond m bond_id s of
        (Inl e, s') \<Rightarrow> (Inl e, s')
      | (Inr bond, s') \<Rightarrow>
          (case cashflows_for (date_init m) (bond_cashflows (ql m) bond)
                  [0..<t_length (date_init m) (date_end m)] (result, 0) of
             Inl e \<Rightarrow> (Inl e, s')
           | Inr (result', i) \<Rightarrow> (Inr result', s')))"

definition redemptions ::
  "model \<Rightarrow> nat \<Rightarrow> 's Settings_scheme \<Rightarrow> (error + real list) \<times> 's Settings_scheme" where
  "redemptions m bond_id s =
     (let result = replicate (t_length (date_init m) (date_end m)) 0 in
      case fixed_rate_bond m bond_id s of
        (Inl e, s') \<Rightarrow> (Inl e, s')
      | (Inr bond, s') \<Rightarrow>
          (case redemptions_for (date_init m) (bond_redemptions (ql m) bond)
                  [0..<t_length (date_init m) (date_end m)] (result, 0) of
             (result', i) \<Rightarrow> (Inr result', s')))"

text \<open>
  \<open>cashflows_total\<close>: the loop over \<open>bond_data.index\<close> inside the loop over the
  periods; each step is \<open>result[t] += cashflows(i)[t]\<close>.
\<close>

fun cashflows_total_index ::
  "model \<Rightarrow> nat \<Rightarrow> nat list \<Rightarrow> real list \<Rightarrow> 's Settings_scheme
    \<Rightarrow> (error + real list) \<times> 's Settings_scheme" where
  "cashflows_total_index m t [] result s = (Inr result, s)"
| "cashflows_total_index m t (i # is) result s =
     (case cashflows m i s of
        (Inl e, s') \<Rightarrow> (Inl e, s')
      | (Inr c, s') \<Rightarrow> cashflows_total_index m t is (result[t := result ! t + c ! t]) s')"

fun cashflows_total_for ::
  "model \<Rightarrow> nat list \<Rightarrow> real list \<Rightarrow> 's Settings_scheme
    \<Rightarrow> (error + real list) \<times> 's Settings_scheme" where
  "cashflows_total_for m [] result s = (Inr result, s)"
| "cashflows_total_for m (t # ts) result s =
     (case cashflows_total_index m t (index (bond_data m)) result s of
        (Inl e, s') \<Rightarrow> (Inl e, s')
      | (Inr result', s') \<Rightarrow> cashflows_total_for m ts result' s')"

definition cashflows_total ::
  "model \<Rightarrow> 's Settings_scheme \<Rightarrow> (error + real list) \<times> 's Settings_scheme" where
  "cashflows_total m s =
     cashflows_total_for m [0..<t_length (date_init m) (date_end m)]
       (replicate (t_length (date_init m) (date_end m)) 0) s"

fun redemptions_total_index ::
  "model \<Rightarrow> nat \<Rightarrow> nat list \<Rightarrow> real list \<Rightarrow> 's Settings_scheme
    \<Rightarrow> (error + real list) \<times> 's Settings_scheme" where
  "redemptions_total_index m t [] result s = (Inr result, s)"
| "redemptions_total_index m t (i # is) result s =
     (case redemptions m i s of
        (Inl e, s') \<Rightarrow> (Inl e, s')
      | (Inr c, s') \<Rightarrow> redemptions_total_index m t is (result[t := result ! t + c ! t]) s')"

fun redemptions_total_for ::
  "model \<Rightarrow> nat list \<Rightarrow> real list \<Rightarrow> 's Settings_scheme
    \<Rightarrow> (error + real list) \<times> 's Settings_scheme" where
  "redemptions_total_for m [] result s = (Inr result, s)"
| "redemptions_total_for m (t # ts) result s =
     (case redemptions_total_index m t (index (bond_data m)) result s of
        (Inl e, s') \<Rightarrow> (Inl e, s')
      | (Inr result', s') \<Rightarrow> redemptions_total_for m ts result' s')"

definition redemptions_total ::
  "model \<Rightarrow> 's Settings_scheme \<Rightarrow> (error + real list) \<times> 's Settings_scheme" where
  "redemptions_total m s =
     redemptions_total_for m [0..<t_length (date_init m) (date_end m)]
       (replicate (t_length (date_init m) (date_end m)) 0) s"

text \<open>
  \<open>market_values\<close>: for each id of the index, \<open>bond(i)\<close> is evaluated twice, for the
  notional and for the clean price.
\<close>

fun market_values_index ::
  "model \<Rightarrow> nat list \<Rightarrow> 's Settings_scheme \<Rightarrow> (error + real list) \<times> 's Settings_scheme" where
  "market_values_index m [] s = (Inr [], s)"
| "market_values_index m (i # is) s =
     (case fixed_rate_bond m i s of
        (Inl e, s1) \<Rightarrow> (Inl e, s1)
      | (Inr b1, s1) \<Rightarrow>
          (case fixed_rate_bond m i s1 of
             (Inl e, s2) \<Rightarrow> (Inl e, s2)
           | (Inr b2, s2) \<Rightarrow>
               (case market_values_index m is s2 of
                  (Inl e, s3) \<Rightarrow> (Inl e, s3)
                | (Inr vs, s3) \<Rightarrow>
                    (Inr (bond_notional (ql m) (evaluationDate s1) b1
                          * bond_cleanPrice (ql m) (evaluationDate s2) b2 / 100 # vs), s3))))"

definition market_values ::
  "model \<Rightarrow> 's Settings_scheme \<Rightarrow> (error + real list) \<times> 's Settings_scheme" where
  "market_values m s = market_values_index m (index (bond_data m)) s"


section \<open>The bucketing contract\<close>

text \<open>
  The contract of the specification for bucket \<open>t\<close> of a leg: the sum of the amounts of
  the events of the leg whose date lies in the half-open interval from \<open>dates(t)\<close>
  to \<open>dates(t+1)\<close>.
\<close>

definition bucket_sum :: "Date \<Rightarrow> cashflow list \<Rightarrow> nat \<Rightarrow> real" where
  "bucket_sum d0 leg t =
     (\<Sum>e\<leftarrow>filter (\<lambda>e. dates d0 t \<le> date e \<and> date e < dates d0 (t + 1)) leg. amount e)"


section \<open>Example data\<close>

text \<open>
  Two rows of the sample table of the module's docstring (bond ids 1 and 3; the columns
  the docstring elides are filled in), its zero curve, and the valuation date of the
  source.  The library functions of the example return given legs, the face amount as
  notional and a clean price of 98.
\<close>

definition example_bond_data :: "(nat \<times> bond_row) list" where
  "example_bond_data =
     [(1, \<lparr>settlement_days = 0, face_value = 235000, issue_date = (2017, 12, 12),
           bond_term = 10, maturity_date = (2027, 12, 12), tenor = ''1Y'',
           coupon_rate = 7 / 100, z_spread = 304 / 10000\<rparr>),
      (3, \<lparr>settlement_days = 0, face_value = 799000, issue_date = (2017, 2, 3),
           bond_term = 10, maturity_date = (2027, 2, 3), tenor = ''6M'',
           coupon_rate = 3 / 100, z_spread = 155 / 10000\<rparr>)]"

definition example_zero_curve :: "(string \<times> real) list" where
  "example_zero_curve =
     [(''1M'', 4 / 10000), (''2M'', 15 / 10000), (''3M'', 26 / 10000), (''6M'', 57 / 10000),
      (''1Y'', 91 / 10000), (''2Y'', 136 / 10000), (''3Y'', 161 / 10000), (''5Y'', 182 / 10000),
      (''7Y'', 192 / 10000), (''10Y'', 194 / 10000), (''20Y'', 231 / 10000),
      (''30Y'', 225 / 10000)]"

definition example_ql :: "cashflow list \<Rightarrow> cashflow list \<Rightarrow> quantlib" where
  "example_ql leg_c leg_r =
     \<lparr>plus_Period = (\<lambda>d dur. d),
      bond_cashflows = (\<lambda>b. leg_c),
      bond_redemptions = (\<lambda>b. leg_r),
      bond_notional = (\<lambda>ev b. faceAmount b),
      bond_cleanPrice = (\<lambda>ev b. 98)\<rparr>"

definition example_model :: "Date \<Rightarrow> cashflow list \<Rightarrow> cashflow list \<Rightarrow> model" where
  "example_model d_end leg_c leg_r =
     \<lparr>date_init = (2022, 1, 1),
      date_end = d_end,
      bond_data = example_bond_data,
      zero_curve = example_zero_curve,
      ql = example_ql leg_c leg_r\<rparr>"


section \<open>The axis is strictly increasing\<close>

lemma year_plus_1Y: "fst (plus_1Y dt) = fst dt + 1"
  by (cases dt) (simp add: plus_1Y_def)

lemma year_dates: "fst (dates d0 t) = fst d0 + t"
  by (induction t) (simp_all add: year_plus_1Y)

lemma year_less_date: "fst (a::Date) < fst b \<Longrightarrow> a < b"
  by (cases a, cases b) (auto simp: less_prod_def)

lemma dates_strict_mono: "t < u \<Longrightarrow> dates d0 t < dates d0 u"
  by (rule year_less_date) (simp add: year_dates del: dates.simps)

lemma dates_mono: "t \<le> u \<Longrightarrow> dates d0 t \<le> dates d0 u"
  using dates_strict_mono [of t u d0] by (cases "t = u") auto

section \<open>The loops of \<open>redemptions\<close>\<close>

text \<open>
  The loop of one period passes the events dated before the end of the period, up to
  the first event that is not, and adds to the bucket those of them dated from the
  start of the period on.
\<close>

lemma redemptions_while_eq:
  "i \<le> length leg \<Longrightarrow> t < length res \<Longrightarrow>
   redemptions_while d0 leg t (res, i) =
     (res[t := res ! t + (\<Sum>e\<leftarrow>filter (\<lambda>e. dates d0 t \<le> date e)
          (takeWhile (\<lambda>e. date e < dates d0 (Suc t)) (drop i leg)). amount e)],
      i + length (takeWhile (\<lambda>e. date e < dates d0 (Suc t)) (drop i leg)))"
proof (induction d0 leg t "(res, i)" arbitrary: res i rule: redemptions_while.induct)
  case (1 d0 leg t result i)
  show ?case
  proof (cases "i < length leg")
    case False
    with "1.prems" show ?thesis
      by (subst redemptions_while.simps) (simp add: list_update_same_conv)
  next
    case True
    then have dr: "drop i leg = leg ! i # drop (Suc i) leg"
      by (simp add: Cons_nth_drop_Suc)
    consider (add) "dates d0 t \<le> date (leg ! i)" "date (leg ! i) < dates d0 (Suc t)"
      | (brk) "dates d0 (Suc t) \<le> date (leg ! i)"
      | (skip) "\<not> dates d0 t \<le> date (leg ! i)" "date (leg ! i) < dates d0 (Suc t)"
      by (meson not_less)
    then show ?thesis
    proof cases
      case add
      let ?r1 = "result[t := result ! t + amount (leg ! i)]"
      have "redemptions_while d0 leg t (result, i) =
          redemptions_while d0 leg t (result[t := result ! t + amount (leg ! i)], i + 1)"
        using add True by (subst redemptions_while.simps) (simp del: dates.simps)
      also have "\<dots> = (?r1[t := ?r1 ! t +
              (\<Sum>e\<leftarrow>filter (\<lambda>e. dates d0 t \<le> date e)
                 (takeWhile (\<lambda>e. date e < dates d0 (Suc t)) (drop (i + 1) leg)). amount e)],
             i + 1 + length (takeWhile (\<lambda>e. date e < dates d0 (Suc t)) (drop (i + 1) leg)))"
        using "1.hyps"(1) add True "1.prems"
        by (simp del: dates.simps)
      finally show ?thesis
        using add "1.prems" by (simp add: dr add.assoc del: dates.simps)
    next
      case brk
      then have "\<not> date (leg ! i) < dates d0 (Suc t)"
        by (simp add: not_less del: dates.simps)
      with brk True "1.prems" show ?thesis
        by (subst redemptions_while.simps)
          (simp add: dr list_update_same_conv del: dates.simps)
    next
      case skip
      then have nb: "\<not> dates d0 (Suc t) \<le> date (leg ! i)"
        by (simp add: not_le del: dates.simps)
      have "redemptions_while d0 leg t (result, i) =
          redemptions_while d0 leg t (result, i + 1)"
        using skip nb True by (subst redemptions_while.simps) (simp del: dates.simps)
      also have "\<dots> = (result
             [t := result ! t +
              (\<Sum>e\<leftarrow>filter (\<lambda>e. dates d0 t \<le> date e)
                 (takeWhile (\<lambda>e. date e < dates d0 (Suc t)) (drop (i + 1) leg)). amount e)],
             i + 1 + length (takeWhile (\<lambda>e. date e < dates d0 (Suc t)) (drop (i + 1) leg)))"
        using "1.hyps"(2) skip nb True "1.prems"
        by (simp del: dates.simps)
      finally show ?thesis
        using skip by (simp add: dr del: dates.simps)
    qed
  qed
qed


lemma takeWhile_sorted_less:
  fixes f :: "'a \<Rightarrow> 'b::linorder"
  shows "sorted (map f xs) \<Longrightarrow> takeWhile (\<lambda>e. f e < c) xs = filter (\<lambda>e. f e < c) xs"
proof (induction xs)
  case Nil
  then show ?case by simp
next
  case (Cons x xs)
  show ?case
  proof (cases "f x < c")
    case True
    with Cons show ?thesis by simp
  next
    case False
    with Cons.prems have "\<forall>e\<in>set xs. \<not> f e < c"
      by (auto simp: not_less)
    then have "filter (\<lambda>e. f e < c) xs = []"
      by (simp add: filter_empty_conv)
    with False show ?thesis by simp
  qed
qed

lemma dropWhile_sorted_less:
  fixes f :: "'a \<Rightarrow> 'b::linorder"
  shows "sorted (map f xs) \<Longrightarrow> dropWhile (\<lambda>e. f e < c) xs = filter (\<lambda>e. \<not> f e < c) xs"
proof (induction xs)
  case Nil
  then show ?case by simp
next
  case (Cons x xs)
  show ?case
  proof (cases "f x < c")
    case True
    with Cons show ?thesis by simp
  next
    case False
    with Cons.prems have "\<forall>e\<in>set xs. \<not> f e < c"
      by (auto simp: not_less)
    then have "filter (\<lambda>e. \<not> f e < c) xs = xs"
      by (simp add: filter_id_conv)
    with False show ?thesis by simp
  qed
qed

lemma sorted_map_filter:
  fixes f :: "'a \<Rightarrow> 'b::linorder"
  shows "sorted (map f xs) \<Longrightarrow> sorted (map f (filter P xs))"
  by (induction xs) auto

lemma bucket_sum_later:
  assumes "a < t"
  shows "bucket_sum d0 (filter (\<lambda>e. \<not> date e < dates d0 (Suc a)) es) t = bucket_sum d0 es t"
proof -
  have "dates d0 (Suc a) \<le> dates d0 t"
    using assms by (intro dates_mono) simp
  then have "\<And>e. dates d0 t \<le> date e \<Longrightarrow> \<not> date e < dates d0 (Suc a)"
    by (meson not_less order_trans)
  then have "filter (\<lambda>e. dates d0 t \<le> date e \<and> date e < dates d0 (t + 1))
        (filter (\<lambda>e. \<not> date e < dates d0 (Suc a)) es)
      = filter (\<lambda>e. dates d0 t \<le> date e \<and> date e < dates d0 (t + 1)) es"
    by (auto simp del: dates.simps intro!: filter_cong)
  then show ?thesis
    unfolding bucket_sum_def by simp
qed

text \<open>
  On a leg in date order from index \<open>i\<close> on, the loop over the periods \<open>a\<close> to
  \<open>b\<close> adds to each of these buckets the bucket sum of the remaining events.
\<close>

lemma redemptions_for_sorted:
  assumes "sorted (map date (drop i leg))" "i \<le> length leg" "b \<le> length res"
  shows "fst (redemptions_for d0 leg [a..<b] (res, i)) =
    map (\<lambda>t. if a \<le> t \<and> t < b then res ! t + bucket_sum d0 (drop i leg) t else res ! t)
      [0..<length res]"
  using assms
proof (induction "b - a" arbitrary: a res i)
  case 0
  then have ba: "b \<le> a" by simp
  then have "map (\<lambda>t. if a \<le> t \<and> t < b then res ! t + bucket_sum d0 (drop i leg) t else res ! t)
      [0..<length res] = map (\<lambda>t. res ! t) [0..<length res]"
    by (intro map_cong) auto
  with ba show ?case by (simp add: map_nth)
next
  case (Suc n)
  then have ab: "a < b" by simp
  let ?P = "\<lambda>e. date e < dates d0 (Suc a)"
  let ?es = "drop i leg"
  let ?res1 = "res[a := res ! a + (\<Sum>e\<leftarrow>filter (\<lambda>e. dates d0 a \<le> date e) (takeWhile ?P ?es). amount e)]"
  let ?i1 = "i + length (takeWhile ?P ?es)"
  have w: "redemptions_while d0 leg a (res, i) = (?res1, ?i1)"
    using Suc.prems ab by (intro redemptions_while_eq) simp_all
  have "length (takeWhile ?P ?es) \<le> length ?es"
    by (rule length_takeWhile_le)
  then have i1: "?i1 \<le> length leg"
    using Suc.prems by simp
  have "drop ?i1 leg = drop (length (takeWhile ?P ?es)) ?es"
    by (simp add: add.commute)
  also have "\<dots> = dropWhile ?P ?es"
    by (simp add: dropWhile_eq_drop)
  also have "\<dots> = filter (\<lambda>e. \<not> ?P e) ?es"
    using Suc.prems(1) by (rule dropWhile_sorted_less)
  finally have dr: "drop ?i1 leg = filter (\<lambda>e. \<not> ?P e) ?es" .
  have srt: "sorted (map date (drop ?i1 leg))"
    unfolding dr using Suc.prems(1) by (rule sorted_map_filter)
  have n: "n = b - Suc a"
    using Suc.hyps(2) by simp
  have IH: "fst (redemptions_for d0 leg [Suc a..<b] (?res1, ?i1)) =
    map (\<lambda>t. if Suc a \<le> t \<and> t < b then ?res1 ! t + bucket_sum d0 (drop ?i1 leg) t else ?res1 ! t)
      [0..<length ?res1]"
    using Suc.hyps(1) [OF n srt i1] Suc.prems(3) by simp
  have a_sum: "(\<Sum>e\<leftarrow>filter (\<lambda>e. dates d0 a \<le> date e) (takeWhile ?P ?es). amount e)
      = bucket_sum d0 ?es a"
    using takeWhile_sorted_less [OF Suc.prems(1), of "dates d0 (Suc a)"]
    by (simp add: bucket_sum_def conj_commute del: dates.simps)
  have "[a..<b] = a # [Suc a..<b]"
    using ab by (simp add: upt_conv_Cons)
  then have "fst (redemptions_for d0 leg [a..<b] (res, i)) =
      fst (redemptions_for d0 leg [Suc a..<b] (?res1, ?i1))"
    using w by simp
  also have "\<dots> = map (\<lambda>t. if a \<le> t \<and> t < b then res ! t + bucket_sum d0 ?es t else res ! t)
      [0..<length res]"
    unfolding IH
  proof (rule nth_equalityI)
    show "length (map (\<lambda>t. if Suc a \<le> t \<and> t < b
          then ?res1 ! t + bucket_sum d0 (drop ?i1 leg) t else ?res1 ! t) [0..<length ?res1])
        = length (map (\<lambda>t. if a \<le> t \<and> t < b
          then res ! t + bucket_sum d0 ?es t else res ! t) [0..<length res])"
      by simp
  next
    fix k
    assume "k < length (map (\<lambda>t. if Suc a \<le> t \<and> t < b
          then ?res1 ! t + bucket_sum d0 (drop ?i1 leg) t else ?res1 ! t) [0..<length ?res1])"
    then have k: "k < length res" by simp
    show "map (\<lambda>t. if Suc a \<le> t \<and> t < b
          then ?res1 ! t + bucket_sum d0 (drop ?i1 leg) t else ?res1 ! t) [0..<length ?res1] ! k
        = map (\<lambda>t. if a \<le> t \<and> t < b
          then res ! t + bucket_sum d0 ?es t else res ! t) [0..<length res] ! k"
    proof (cases "k = a")
      case True
      with k ab show ?thesis
        by (simp add: a_sum del: dates.simps)
    next
      case False
      show ?thesis
      proof (cases "a < k")
        case True
        with k False show ?thesis
          by (simp add: dr bucket_sum_later del: dates.simps)
      next
        case False
        with k \<open>k \<noteq> a\<close> show ?thesis
          by (simp del: dates.simps)
      qed
    qed
  qed
  finally show ?case .
qed


section \<open>The horizon length\<close>

lemma t_length_loop_props:
  "t \<le> t_length_loop d0 d_end t
   \<and> d_end \<le> dates d0 (t_length_loop d0 d_end t)
   \<and> (\<forall>k. t \<le> k \<and> k < t_length_loop d0 d_end t \<longrightarrow> dates d0 k < d_end)"
proof (induction d0 d_end t rule: t_length_loop.induct)
  case (1 d0 d_end t)
  show ?case
  proof (cases "dates d0 t < d_end")
    case True
    then have eq: "t_length_loop d0 d_end t = t_length_loop d0 d_end (Suc t)"
      by (subst t_length_loop.simps) simp
    have IH: "Suc t \<le> t_length_loop d0 d_end (Suc t)
      \<and> d_end \<le> dates d0 (t_length_loop d0 d_end (Suc t))
      \<and> (\<forall>k. Suc t \<le> k \<and> k < t_length_loop d0 d_end (Suc t) \<longrightarrow> dates d0 k < d_end)"
      using "1.IH" [OF True] by simp
    have "dates d0 k < d_end" if "t \<le> k" "k < t_length_loop d0 d_end (Suc t)" for k
    proof (cases "k = t")
      case True
      with \<open>dates d0 t < d_end\<close> show ?thesis by simp
    next
      case False
      with that IH show ?thesis by simp
    qed
    with IH show ?thesis
      unfolding eq by auto
  next
    case False
    then have "t_length_loop d0 d_end t = t"
      by (subst t_length_loop.simps) simp
    with False show ?thesis
      by (auto simp: not_less)
  qed
qed

lemma t_length_ge: "d_end \<le> dates d0 (t_length d0 d_end)"
  using t_length_loop_props [of 0 d0 d_end] by (simp add: t_length_def)

lemma t_length_before: "k < t_length d0 d_end \<Longrightarrow> dates d0 k < d_end"
  using t_length_loop_props [of 0 d0 d_end] by (simp add: t_length_def)

text \<open>
  C2.  When the end date is after the valuation date, \<open>t_length\<close> returns a positive
  \<open>N\<close> with \<open>dates(N) \<ge> date_end\<close> and \<open>dates(N-1) < date_end\<close>, and no other positive
  index has these two properties.
\<close>

theorem t_length_unique:
  assumes "d0 < d_end"
  shows "0 < t_length d0 d_end
    \<and> d_end \<le> dates d0 (t_length d0 d_end)
    \<and> dates d0 (t_length d0 d_end - 1) < d_end
    \<and> (\<forall>M. 0 < M \<and> d_end \<le> dates d0 M \<and> dates d0 (M - 1) < d_end
          \<longrightarrow> M = t_length d0 d_end)"
proof -
  let ?N = "t_length d0 d_end"
  have pos: "0 < ?N"
  proof (rule ccontr)
    assume "\<not> 0 < ?N"
    then have "d_end \<le> d0"
      using t_length_ge [of d_end d0] by simp
    with assms show False by simp
  qed
  have before: "dates d0 (?N - 1) < d_end"
    using pos by (intro t_length_before) simp
  have "M = ?N" if M: "0 < M" "d_end \<le> dates d0 M" "dates d0 (M - 1) < d_end" for M
  proof (rule ccontr)
    assume "M \<noteq> ?N"
    then consider "M < ?N" | "?N < M" by linarith
    then show False
    proof cases
      case 1
      then have "dates d0 M < d_end" by (rule t_length_before)
      with M(2) show False by simp
    next
      case 2
      with M(1) have "?N \<le> M - 1" by simp
      then have "dates d0 ?N \<le> dates d0 (M - 1)" by (rule dates_mono)
      with t_length_ge [of d_end d0] M(3) show False by simp
    qed
  qed
  with pos before t_length_ge [of d_end d0] show ?thesis
    by blast
qed

theorem t_length_unique_witness:
  "t_length (2022, 1, 1) (2025, 1, 1) = 3
   \<and> (2025, 1, 1) \<le> dates (2022, 1, 1) 3
   \<and> dates (2022, 1, 1) 2 < (2025, 1, 1)"
proof -
  have less: "((2022, 1, 1) :: Date) < (2025, 1, 1)"
    by simp
  have three: "t_length (2022, 1, 1) (2025, 1, 1) = 3"
    by code_simp
  from t_length_unique [OF less] show ?thesis
    unfolding three by simp
qed

text \<open>
  C5, as the code has it.  When the end date is before the valuation date, the first
  test of the loop fails and \<open>t_length\<close> returns 0: the horizon is empty, nothing is
  raised and nothing loops.
\<close>

theorem t_length_end_before_init:
  assumes "d_end < d0"
  shows "t_length d0 d_end = 0"
proof -
  have "\<not> dates d0 0 < d_end"
    using assms by simp
  then show ?thesis
    unfolding t_length_def by (subst t_length_loop.simps) simp
qed

theorem t_length_end_before_init_witness:
  "((2021, 6, 30) :: Date) < (2022, 1, 1) \<and> t_length (2022, 1, 1) (2021, 6, 30) = 0"
proof -
  have less: "((2021, 6, 30) :: Date) < (2022, 1, 1)"
    by simp
  from t_length_end_before_init [OF less] less show ?thesis
    by simp
qed

text \<open>
  C5 as stated does not hold: with the end date 2021-01-01 before the valuation date
  2022-01-01, \<open>t_length\<close> returns 0.
\<close>

theorem t_length_no_failure_counterexample:
  "((2021, 1, 1) :: Date) < (2022, 1, 1) \<and> t_length (2022, 1, 1) (2021, 1, 1) = 0"
  by code_simp


section \<open>The bond of an id\<close>

lemma loc_index: "i \<in> set (index table) \<Longrightarrow> \<exists>row. loc table i = Inr row"
proof -
  assume "i \<in> set (index table)"
  then have "map_of table i \<noteq> None"
    by (simp add: index_def map_of_eq_None_iff)
  then show ?thesis
    by (auto simp: loc_def)
qed

lemma riskfree_curve_value: "fst (riskfree_curve m s) = fst (riskfree_curve m s')"
  by (simp add: riskfree_curve_def Let_def)

lemma fixed_rate_bond_Inr:
  assumes "loc (bond_data m) i = Inr row"
  shows "fixed_rate_bond m i s =
    (Inr \<lparr>settlementDays = settlement_days row,
          faceAmount = real_of_int (face_value row),
          bond_schedule =
            \<lparr>effectiveDate = issue_date row,
             terminationDate = maturity_date row,
             schedule_tenor = (if tenor row = ''6Y'' then Semiannual else Annual),
             calendar = UnitedStates,
             convention = Unadjusted,
             terminationDateConvention = Unadjusted,
             rule = Backward,
             endOfMonth = False\<rparr>,
          coupons = [coupon_rate row],
          paymentDayCounter = Actual360,
          paymentConvention = Unadjusted,
          pricingEngine = DiscountingBondEngine
            (ZeroSpreadedTermStructure (fst (riskfree_curve m s)) (z_spread row)
               Compounded Annual)\<rparr>,
     s\<lparr>evaluationDate := Some (date_init m)\<rparr>)"
  using assms
  by (simp add: fixed_rate_bond_def schedule_def discount_curve_def riskfree_curve_def Let_def)

lemma fixed_rate_bond_Inl:
  "loc (bond_data m) i = Inl e \<Longrightarrow> fixed_rate_bond m i s = (Inl e, s)"
  by (simp add: fixed_rate_bond_def)

lemma fixed_rate_bond_value:
  "fst (fixed_rate_bond m i s) = fst (fixed_rate_bond m i s')"
proof (cases "loc (bond_data m) i")
  case (Inl e)
  then show ?thesis by (simp add: fixed_rate_bond_Inl)
next
  case (Inr row)
  then show ?thesis
    by (simp add: fixed_rate_bond_Inr riskfree_curve_value [of m s s'])
qed

text \<open>
  C7.  For a bond id of the table, the schedule is built with the semiannual frequency
  exactly when the tenor label of the row is the string \<open>6Y\<close>, and with the annual
  frequency for every other label.
\<close>

theorem schedule_tenor_6Y:
  assumes "loc (bond_data m) bond_id = Inr row"
  shows "\<exists>sch. schedule m bond_id = Inr sch
    \<and> (schedule_tenor sch = Semiannual \<longleftrightarrow> tenor row = ''6Y'')
    \<and> (tenor row \<noteq> ''6Y'' \<longrightarrow> schedule_tenor sch = Annual)"
  using assms by (simp add: schedule_def)

theorem schedule_tenor_6Y_witness:
  "\<exists>row sch. loc (bond_data (example_model (2025, 1, 1) [] [])) 3 = Inr row
     \<and> tenor row = ''6M''
     \<and> schedule (example_model (2025, 1, 1) [] []) 3 = Inr sch
     \<and> schedule_tenor sch = Annual"
proof -
  obtain row where row: "loc (bond_data (example_model (2025, 1, 1) [] [])) 3 = Inr row"
    and tenor: "tenor row = ''6M''"
    by (simp add: example_model_def example_bond_data_def loc_def)
  from schedule_tenor_6Y [OF row] tenor row show ?thesis
    by auto
qed

text \<open>
  C8, as the code has it.  \<open>riskfree_curve\<close> assigns the valuation date to the
  library's global evaluation date and leaves it there: after the call the evaluation
  date is \<open>dates(0)\<close> whatever it was before, the rest of the global state is as it was,
  and a second call returns the same curve and the same state.
\<close>

theorem riskfree_curve_evaluationDate:
  "evaluationDate (snd (riskfree_curve m s)) = Some (dates (date_init m) 0)
   \<and> Settings.more (snd (riskfree_curve m s)) = Settings.more s
   \<and> riskfree_curve m (snd (riskfree_curve m s)) = riskfree_curve m s"
  by (simp add: riskfree_curve_def Let_def)

text \<open>
  C8 as stated does not hold: an evaluation date 2020-05-05 set before the call is
  2022-01-01 after it.
\<close>

theorem riskfree_curve_restore_counterexample:
  "evaluationDate (snd (riskfree_curve (example_model (2025, 1, 1) [] [])
      \<lparr>evaluationDate = Some (2020, 5, 5)\<rparr>)) = Some (2022, 1, 1)
   \<and> Some (2022, 1, 1) \<noteq> Some ((2020, 5, 5) :: Date)"
  by (simp add: riskfree_curve_def Let_def example_model_def)


section \<open>The assertion of \<open>cashflows\<close>\<close>

text \<open>
  Up to an index \<open>K\<close> at which the loop of period \<open>t\<close> breaks, and with the events up
  to \<open>K\<close> in order, the loop of \<open>cashflows\<close> does what the loop of \<open>redemptions\<close>
  does, and stays at or below \<open>K\<close>.
\<close>

lemma cashflows_while_ok:
  assumes "K \<le> length leg"
    and "K < length leg \<Longrightarrow> dates d0 (Suc t) \<le> date (leg ! K)"
    and "\<And>k. 0 < k \<Longrightarrow> k \<le> K \<Longrightarrow> k < length leg \<Longrightarrow> date (leg ! (k - 1)) \<le> date (leg ! k)"
    and "i \<le> K"
  shows "cashflows_while d0 leg t (res, i) = Inr (redemptions_while d0 leg t (res, i))
    \<and> snd (redemptions_while d0 leg t (res, i)) \<le> K"
  using assms
proof (induction d0 leg t "(res, i)" arbitrary: res i rule: cashflows_while.induct)
  case (1 d0 leg t result i)
  show ?case
  proof (cases "i < length leg")
    case False
    then show ?thesis
      using "1.prems"(4)
      by (subst cashflows_while.simps, subst (1 2) redemptions_while.simps) simp
  next
    case True
    have ord: "\<not> (0 < i \<and> \<not> date (leg ! (i - 1)) \<le> date (leg ! i))"
      using "1.prems"(3) [of i] "1.prems"(4) True by blast
    consider (add) "dates d0 t \<le> date (leg ! i)" "date (leg ! i) < dates d0 (Suc t)"
      | (brk) "dates d0 (Suc t) \<le> date (leg ! i)"
      | (skip) "\<not> dates d0 t \<le> date (leg ! i)" "date (leg ! i) < dates d0 (Suc t)"
      by (meson not_less)
    then show ?thesis
    proof cases
      case add
      have "i \<noteq> K"
        using add(2) "1.prems"(2) True by auto
      with "1.prems"(4) have iK: "i + 1 \<le> K" by simp
      have c: "cashflows_while d0 leg t (result, i) =
          cashflows_while d0 leg t (result[t := result ! t + amount (leg ! i)], i + 1)"
        using add True ord by (subst cashflows_while.simps) (auto simp del: dates.simps)
      have r: "redemptions_while d0 leg t (result, i) =
          redemptions_while d0 leg t (result[t := result ! t + amount (leg ! i)], i + 1)"
        using add True by (subst redemptions_while.simps) (simp del: dates.simps)
      have "cashflows_while d0 leg t (result[t := result ! t + amount (leg ! i)], i + 1)
          = Inr (redemptions_while d0 leg t (result[t := result ! t + amount (leg ! i)], i + 1))
        \<and> snd (redemptions_while d0 leg t (result[t := result ! t + amount (leg ! i)], i + 1)) \<le> K"
        using add True ord "1.prems"(1,2,3) iK
        by (intro "1.hyps"(1)) (simp_all del: dates.simps)
      then show ?thesis
        unfolding c r .
    next
      case brk
      then have nl: "\<not> date (leg ! i) < dates d0 (Suc t)"
        by (simp add: not_less del: dates.simps)
      have c: "cashflows_while d0 leg t (result, i) = Inr (result, i)"
        using brk nl True ord by (subst cashflows_while.simps) (auto simp del: dates.simps)
      have r: "redemptions_while d0 leg t (result, i) = (result, i)"
        using brk nl True by (subst redemptions_while.simps) (simp del: dates.simps)
      show ?thesis
        unfolding c r using "1.prems"(4) by simp
    next
      case skip
      then have nb: "\<not> dates d0 (Suc t) \<le> date (leg ! i)"
        by (simp add: not_le del: dates.simps)
      have "i \<noteq> K"
        using skip(2) "1.prems"(2) True by auto
      with "1.prems"(4) have iK: "i + 1 \<le> K" by simp
      have c: "cashflows_while d0 leg t (result, i) =
          cashflows_while d0 leg t (result, i + 1)"
        using skip nb True ord by (subst cashflows_while.simps) (auto simp del: dates.simps)
      have r: "redemptions_while d0 leg t (result, i) =
          redemptions_while d0 leg t (result, i + 1)"
        using skip nb True by (subst redemptions_while.simps) (simp del: dates.simps)
      have "cashflows_while d0 leg t (result, i + 1)
          = Inr (redemptions_while d0 leg t (result, i + 1))
        \<and> snd (redemptions_while d0 leg t (result, i + 1)) \<le> K"
        using skip nb True ord "1.prems"(1,2,3) iK
        by (intro "1.hyps"(2)) (simp_all del: dates.simps)
      then show ?thesis
        unfolding c r .
    qed
  qed
qed


lemma cashflows_for_ok:
  assumes "K \<le> length leg"
    and "K < length leg \<Longrightarrow> dates d0 N \<le> date (leg ! K)"
    and "\<And>k. 0 < k \<Longrightarrow> k \<le> K \<Longrightarrow> k < length leg \<Longrightarrow> date (leg ! (k - 1)) \<le> date (leg ! k)"
    and "\<forall>t\<in>set ts. t < N"
    and "i \<le> K"
  shows "cashflows_for d0 leg ts (res, i) = Inr (redemptions_for d0 leg ts (res, i))"
  using assms(4,5)
proof (induction ts arbitrary: res i)
  case Nil
  then show ?case by simp
next
  case (Cons t ts)
  then have "Suc t \<le> N" by simp
  then have "dates d0 (Suc t) \<le> dates d0 N"
    by (rule dates_mono)
  then have brk: "K < length leg \<Longrightarrow> dates d0 (Suc t) \<le> date (leg ! K)"
    using assms(2) by (meson order_trans)
  obtain r1 i1 where r: "redemptions_while d0 leg t (res, i) = (r1, i1)"
    by (cases "redemptions_while d0 leg t (res, i)")
  have w: "cashflows_while d0 leg t (res, i) = Inr (r1, i1)" and i1: "i1 \<le> K"
    using cashflows_while_ok [of K leg d0 t i res, OF assms(1) brk assms(3) Cons.prems(2)] r
    by simp_all
  have "cashflows_for d0 leg ts (r1, i1) = Inr (redemptions_for d0 leg ts (r1, i1))"
    using Cons.prems(1) i1 by (intro Cons.IH) simp_all
  then show ?case
    by (simp add: w r)
qed

lemma cashflows_for_prefix_sorted:
  assumes "sorted (map date (takeWhile (\<lambda>e. date e < dates d0 N) leg))"
  shows "cashflows_for d0 leg [0..<N] (res, 0) = Inr (redemptions_for d0 leg [0..<N] (res, 0))"
proof -
  let ?P = "\<lambda>e. date e < dates d0 N"
  let ?tw = "takeWhile ?P leg"
  let ?K = "length ?tw"
  have K: "?K \<le> length leg"
    by (rule length_takeWhile_le)
  have brk: "dates d0 N \<le> date (leg ! ?K)" if "?K < length leg"
    using nth_length_takeWhile [OF that] by (simp add: not_less)
  have ord: "date (leg ! (k - 1)) \<le> date (leg ! k)"
    if k: "0 < k" "k \<le> ?K" "k < length leg" for k
  proof (cases "k < ?K")
    case True
    then have "map date ?tw ! (k - 1) \<le> map date ?tw ! k"
      using assms by (intro sorted_nth_mono) simp_all
    with True show ?thesis
      by (simp add: takeWhile_nth)
  next
    case False
    with k have kK: "k = ?K" by simp
    have "?tw ! (k - 1) \<in> set ?tw"
      using k kK by (intro nth_mem) simp
    then have "date (?tw ! (k - 1)) < dates d0 N"
      by (auto dest: set_takeWhileD)
    moreover have "?tw ! (k - 1) = leg ! (k - 1)"
      using k kK by (intro takeWhile_nth) simp
    ultimately have "date (leg ! (k - 1)) < dates d0 N"
      by simp
    with brk k kK show ?thesis
      by (metis less_le_trans less_imp_le)
  qed
  show ?thesis
    using K brk ord by (intro cashflows_for_ok [where K = ?K and N = N]) simp_all
qed

text \<open>
  From an index at or below a pair of events in decreasing order, the loop either
  fails at an \<open>assert\<close> or breaks at an event before the pair.
\<close>

lemma cashflows_while_bad:
  assumes "0 < j" and "j < length leg" and "\<not> date (leg ! (j - 1)) \<le> date (leg ! j)"
    and "i \<le> j"
  shows "cashflows_while d0 leg t (res, i) = Inl AssertionError
    \<or> (\<exists>res' i'. cashflows_while d0 leg t (res, i) = Inr (res', i')
          \<and> i' < j \<and> dates d0 (Suc t) \<le> date (leg ! i'))"
  using assms
proof (induction d0 leg t "(res, i)" arbitrary: res i rule: cashflows_while.induct)
  case (1 d0 leg t result i)
  have len: "i < length leg"
    using "1.prems" by simp
  show ?case
  proof (cases "0 < i \<and> \<not> date (leg ! (i - 1)) \<le> date (leg ! i)")
    case True
    then have "cashflows_while d0 leg t (result, i) = Inl AssertionError"
      using len by (subst cashflows_while.simps) (simp del: dates.simps)
    then show ?thesis by simp
  next
    case ord: False
    then have "i \<noteq> j"
      using "1.prems"(1,3) by auto
    with "1.prems"(4) have ij: "i < j" by simp
    consider (add) "dates d0 t \<le> date (leg ! i)" "date (leg ! i) < dates d0 (Suc t)"
      | (brk) "dates d0 (Suc t) \<le> date (leg ! i)"
      | (skip) "\<not> dates d0 t \<le> date (leg ! i)" "date (leg ! i) < dates d0 (Suc t)"
      by (meson not_less)
    then show ?thesis
    proof cases
      case add
      have c: "cashflows_while d0 leg t (result, i) =
          cashflows_while d0 leg t (result[t := result ! t + amount (leg ! i)], i + 1)"
        using add len ord by (subst cashflows_while.simps) (auto simp del: dates.simps)
      show ?thesis
        unfolding c using add len ord "1.prems"(1,2,3) ij
        by (intro "1.hyps"(1)) (simp_all del: dates.simps)
    next
      case brk
      then have nl: "\<not> date (leg ! i) < dates d0 (Suc t)"
        by (simp add: not_less del: dates.simps)
      have "cashflows_while d0 leg t (result, i) = Inr (result, i)"
        using brk nl len ord by (subst cashflows_while.simps) (auto simp del: dates.simps)
      with ij brk show ?thesis by simp
    next
      case skip
      then have nb: "\<not> dates d0 (Suc t) \<le> date (leg ! i)"
        by (simp add: not_le del: dates.simps)
      have c: "cashflows_while d0 leg t (result, i) =
          cashflows_while d0 leg t (result, i + 1)"
        using skip nb len ord by (subst cashflows_while.simps) (auto simp del: dates.simps)
      show ?thesis
        unfolding c using skip nb len ord "1.prems"(1,2,3) ij
        by (intro "1.hyps"(2)) (simp_all del: dates.simps)
    qed
  qed
qed

lemma cashflows_for_bad:
  assumes "0 < j" and "j < length leg" and "\<not> date (leg ! (j - 1)) \<le> date (leg ! j)"
    and "i \<le> j" and "ts \<noteq> []"
  shows "cashflows_for d0 leg ts (res, i) = Inl AssertionError
    \<or> (\<exists>res' i'. cashflows_for d0 leg ts (res, i) = Inr (res', i')
          \<and> i' < j \<and> dates d0 (Suc (last ts)) \<le> date (leg ! i'))"
  using assms(4,5)
proof (induction ts arbitrary: res i)
  case Nil
  then show ?case by simp
next
  case (Cons t ts)
  from cashflows_while_bad [OF assms(1,2,3) Cons.prems(1), of d0 t res]
  consider (err) "cashflows_while d0 leg t (res, i) = Inl AssertionError"
    | (ok) r1 i1 where "cashflows_while d0 leg t (res, i) = Inr (r1, i1)"
        "i1 < j" "dates d0 (Suc t) \<le> date (leg ! i1)"
    by blast
  then show ?case
  proof cases
    case err
    then show ?thesis by simp
  next
    case ok
    show ?thesis
    proof (cases "ts = []")
      case True
      with ok show ?thesis by simp
    next
      case False
      then have "cashflows_for d0 leg ts (r1, i1) = Inl AssertionError
        \<or> (\<exists>res' i'. cashflows_for d0 leg ts (r1, i1) = Inr (res', i')
              \<and> i' < j \<and> dates d0 (Suc (last ts)) \<le> date (leg ! i'))"
        using ok(2) by (intro Cons.IH) simp_all
      with ok(1) False show ?thesis by simp
    qed
  qed
qed

lemma cashflows_for_prefix_unsorted:
  assumes "0 < N"
    and "\<not> sorted (map date (takeWhile (\<lambda>e. date e < dates d0 N) leg))"
  shows "cashflows_for d0 leg [0..<N] (res, 0) = Inl AssertionError"
proof -
  let ?P = "\<lambda>e. date e < dates d0 N"
  let ?tw = "takeWhile ?P leg"
  from assms(2) obtain k where k: "Suc k < length ?tw"
    and bad: "\<not> date (?tw ! k) \<le> date (?tw ! Suc k)"
    by (auto simp: sorted_iff_nth_Suc)
  have le: "length ?tw \<le> length leg"
    by (rule length_takeWhile_le)
  have nth: "?tw ! n = leg ! n" if "n < length ?tw" for n
    using that by (rule takeWhile_nth)
  have j: "0 < Suc k" "Suc k < length leg" "\<not> date (leg ! (Suc k - 1)) \<le> date (leg ! Suc k)"
    using k le bad by (simp_all add: nth)
  have ts: "[0..<N] \<noteq> []" and last: "Suc (last [0..<N]) = N"
    using assms(1) by (simp_all add: last_upt)
  have z: "(0::nat) \<le> Suc k"
    by simp
  from cashflows_for_bad [OF j z ts, of d0 res]
  consider (err) "cashflows_for d0 leg [0..<N] (res, 0) = Inl AssertionError"
    | (ok) i' where "i' < Suc k" "dates d0 N \<le> date (leg ! i')"
    unfolding last by auto
  then show ?thesis
  proof cases
    case err
    then show ?thesis .
  next
    case ok
    then have i': "i' < length ?tw"
      using k by simp
    then have "?tw ! i' \<in> set ?tw"
      by (rule nth_mem)
    then have "date (?tw ! i') < dates d0 N"
      by (auto dest: set_takeWhileD)
    with ok(2) show ?thesis
      by (simp add: nth [OF i'])
  qed
qed

lemma cashflows_for_error_iff:
  "cashflows_for d0 leg [0..<N] (res, 0) = Inl AssertionError \<longleftrightarrow>
     0 < N \<and> \<not> sorted (map date (takeWhile (\<lambda>e. date e < dates d0 N) leg))"
proof (cases "0 < N")
  case False
  then show ?thesis by simp
next
  case True
  show ?thesis
  proof (cases "sorted (map date (takeWhile (\<lambda>e. date e < dates d0 N) leg))")
    case True
    then show ?thesis
      by (simp add: cashflows_for_prefix_sorted)
  next
    case False
    with \<open>0 < N\<close> show ?thesis
      by (simp add: cashflows_for_prefix_unsorted)
  qed
qed

lemma sorted_prefix:
  "sorted (map date leg) \<Longrightarrow> sorted (map date (takeWhile P leg))"
proof -
  assume "sorted (map date leg)"
  then have "sorted (map date (take (length (takeWhile P leg)) leg))"
    by (simp add: take_map [symmetric] sorted_wrt_take)
  then show ?thesis
    by (simp add: takeWhile_eq_take [symmetric])
qed

text \<open>The two loops of \<open>redemptions\<close> on a leg in date order, from the start.\<close>

lemma redemptions_for_buckets:
  assumes "sorted (map date leg)"
  shows "fst (redemptions_for d0 leg [0..<N] (replicate N 0, 0)) = map (bucket_sum d0 leg) [0..<N]"
proof -
  have "fst (redemptions_for d0 leg [0..<N] (replicate N 0, 0)) =
    map (\<lambda>t. if 0 \<le> t \<and> t < N then replicate N 0 ! t + bucket_sum d0 (drop 0 leg) t
              else replicate N 0 ! t) [0..<length (replicate N (0::real))]"
    using assms by (intro redemptions_for_sorted) simp_all
  also have "\<dots> = map (bucket_sum d0 leg) [0..<N]"
    by (intro map_cong) simp_all
  finally show ?thesis .
qed

lemma cashflows_for_buckets:
  assumes "sorted (map date leg)"
  shows "cashflows_for d0 leg [0..<N] (replicate N 0, 0) =
    Inr (redemptions_for d0 leg [0..<N] (replicate N 0, 0))"
  using assms by (intro cashflows_for_prefix_sorted sorted_prefix)


section \<open>The bucketed series of a bond\<close>

lemma cashflows_Inr:
  assumes "fst (fixed_rate_bond m i s) = Inr bond"
  shows "fst (cashflows m i s) =
    (case cashflows_for (date_init m) (bond_cashflows (ql m) bond)
            [0..<t_length (date_init m) (date_end m)]
            (replicate (t_length (date_init m) (date_end m)) 0, 0) of
       Inl e \<Rightarrow> Inl e
     | Inr st \<Rightarrow> Inr (fst st))"
proof -
  obtain s' where "fixed_rate_bond m i s = (Inr bond, s')"
    using assms by (cases "fixed_rate_bond m i s") simp
  then show ?thesis
    by (simp add: cashflows_def split: sum.split prod.split)
qed

lemma redemptions_Inr:
  assumes "fst (fixed_rate_bond m i s) = Inr bond"
  shows "fst (redemptions m i s) =
    Inr (fst (redemptions_for (date_init m) (bond_redemptions (ql m) bond)
            [0..<t_length (date_init m) (date_end m)]
            (replicate (t_length (date_init m) (date_end m)) 0, 0)))"
proof -
  obtain s' where "fixed_rate_bond m i s = (Inr bond, s')"
    using assms by (cases "fixed_rate_bond m i s") simp
  then show ?thesis
    by (simp add: redemptions_def split: prod.split)
qed

lemma cashflows_sorted:
  assumes "fst (fixed_rate_bond m i s) = Inr bond"
    and "sorted (map date (bond_cashflows (ql m) bond))"
  shows "fst (cashflows m i s) =
    Inr (map (bucket_sum (date_init m) (bond_cashflows (ql m) bond))
          [0..<t_length (date_init m) (date_end m)])"
  by (simp add: cashflows_Inr [OF assms(1)] cashflows_for_buckets [OF assms(2)]
      redemptions_for_buckets [OF assms(2)])

lemma redemptions_sorted:
  assumes "fst (fixed_rate_bond m i s) = Inr bond"
    and "sorted (map date (bond_redemptions (ql m) bond))"
  shows "fst (redemptions m i s) =
    Inr (map (bucket_sum (date_init m) (bond_redemptions (ql m) bond))
          [0..<t_length (date_init m) (date_end m)])"
  by (simp add: redemptions_Inr [OF assms(1)] redemptions_for_buckets [OF assms(2)])

text \<open>The example portfolio: the bond of id 1, the axis and the horizon.\<close>

lemma example_bond:
  "\<exists>b. fst (fixed_rate_bond (example_model d_end leg_c leg_r) 1 s) = Inr b"
proof -
  have "1 \<in> set (index (bond_data (example_model d_end leg_c leg_r)))"
    by (simp add: example_model_def example_bond_data_def index_def)
  then obtain row where "loc (bond_data (example_model d_end leg_c leg_r)) 1 = Inr row"
    using loc_index by blast
  then show ?thesis
    by (simp add: fixed_rate_bond_Inr)
qed

lemma example_legs:
  "bond_cashflows (ql (example_model d_end leg_c leg_r)) b = leg_c"
  "bond_redemptions (ql (example_model d_end leg_c leg_r)) b = leg_r"
  by (simp_all add: example_model_def example_ql_def)

lemma example_dates:
  "date_init (example_model d_end leg_c leg_r) = (2022, 1, 1)"
  "date_end (example_model d_end leg_c leg_r) = d_end"
  by (simp_all add: example_model_def)

lemma example_t_length: "t_length (2022, 1, 1) (2025, 1, 1) = 3"
  by code_simp




section \<open>The total over the buckets\<close>

lemma sum_filter_split:
  fixes a b c :: Date
  assumes "a \<le> b" and "b \<le> c"
  shows "(\<Sum>e\<leftarrow>filter (\<lambda>e. a \<le> date e \<and> date e < b) leg. amount e)
       + (\<Sum>e\<leftarrow>filter (\<lambda>e. b \<le> date e \<and> date e < c) leg. amount e)
       = (\<Sum>e\<leftarrow>filter (\<lambda>e. a \<le> date e \<and> date e < c) leg. amount e)"
proof (induction leg)
  case Nil
  then show ?case by simp
next
  case (Cons e leg)
  consider (low) "date e < a" | (first) "a \<le> date e" "date e < b"
    | (second) "b \<le> date e" "date e < c" | (high) "c \<le> date e"
    by (meson not_less)
  then show ?case
  proof cases
    case low
    with assms have "\<not> a \<le> date e" "\<not> b \<le> date e" by auto
    with Cons.IH show ?thesis by simp
  next
    case first
    with assms have "\<not> b \<le> date e" "date e < c" by auto
    with first Cons.IH show ?thesis by simp
  next
    case second
    with assms have "\<not> date e < b" "a \<le> date e" by auto
    with second Cons.IH show ?thesis by simp
  next
    case high
    with assms have "\<not> date e < c" "\<not> date e < b" by auto
    with Cons.IH show ?thesis by simp
  qed
qed

lemma bucket_sum_total:
  "(\<Sum>t\<leftarrow>[0..<N]. bucket_sum d0 leg t) =
   (\<Sum>e\<leftarrow>filter (\<lambda>e. dates d0 0 \<le> date e \<and> date e < dates d0 N) leg. amount e)"
proof (induction N)
  case 0
  have "filter (\<lambda>e. d0 \<le> date e \<and> date e < d0) leg = []"
    by (auto simp: filter_empty_conv)
  then show ?case by simp
next
  case (Suc N)
  have "(\<Sum>t\<leftarrow>[0..<Suc N]. bucket_sum d0 leg t) =
      (\<Sum>e\<leftarrow>filter (\<lambda>e. dates d0 0 \<le> date e \<and> date e < dates d0 N) leg. amount e)
      + bucket_sum d0 leg N"
    using Suc.IH by simp
  also have "\<dots> =
      (\<Sum>e\<leftarrow>filter (\<lambda>e. dates d0 0 \<le> date e \<and> date e < dates d0 (Suc N)) leg. amount e)"
    unfolding bucket_sum_def Suc_eq_plus1 [symmetric]
    by (intro sum_filter_split dates_mono) simp_all
  finally show ?case .
qed

lemma bucket_sum_from_init:
  "bucket_sum d0 (filter (\<lambda>e. d0 \<le> date e) leg) t = bucket_sum d0 leg t"
proof -
  have "d0 \<le> dates d0 t"
    using dates_mono [of 0 t d0] by simp
  then have "filter (\<lambda>e. dates d0 t \<le> date e \<and> date e < dates d0 (t + 1))
        (filter (\<lambda>e. d0 \<le> date e) leg)
      = filter (\<lambda>e. dates d0 t \<le> date e \<and> date e < dates d0 (t + 1)) leg"
    by (auto simp del: dates.simps intro!: filter_cong)
  then show ?thesis
    unfolding bucket_sum_def by simp
qed

text \<open>
  C3.  For a bond of the table whose cashflow leg is in date order, \<open>cashflows\<close>
  returns a vector, and the sum of its entries is the sum of the amounts of the events
  dated from \<open>dates(0)\<close> on and before \<open>dates(N)\<close>, \<open>N\<close> the horizon length: the events
  dated at or after \<open>dates(N)\<close> are left out and nothing is raised.
\<close>

theorem cashflows_sum_within_horizon:
  assumes "fst (fixed_rate_bond m bond_id s) = Inr bond"
    and "sorted (map date (bond_cashflows (ql m) bond))"
  shows "\<exists>r. fst (cashflows m bond_id s) = Inr r
    \<and> sum_list r =
        (\<Sum>e\<leftarrow>filter (\<lambda>e. dates (date_init m) 0 \<le> date e
              \<and> date e < dates (date_init m) (t_length (date_init m) (date_end m)))
            (bond_cashflows (ql m) bond). amount e)"
  using cashflows_sorted [OF assms] bucket_sum_total [of "date_init m"]
  by simp

theorem cashflows_sum_within_horizon_witness:
  "\<exists>r. fst (cashflows
      (example_model (2025, 1, 1)
         [\<lparr>date = (2022, 6, 1), amount = 10\<rparr>, \<lparr>date = (2023, 6, 1), amount = 10\<rparr>,
          \<lparr>date = (2025, 1, 1), amount = 4\<rparr>, \<lparr>date = (2025, 6, 1), amount = 1000\<rparr>] [])
      1 \<lparr>evaluationDate = None\<rparr>) = Inr r \<and> sum_list r = 20"
proof -
  let ?c = "[\<lparr>date = (2022, 6, 1), amount = 10\<rparr>, \<lparr>date = (2023, 6, 1), amount = 10\<rparr>,
          \<lparr>date = (2025, 1, 1), amount = 4\<rparr>, \<lparr>date = (2025, 6, 1), amount = 1000\<rparr>]"
  let ?m = "example_model (2025, 1, 1) ?c []"
  obtain b where b: "fst (fixed_rate_bond ?m 1 \<lparr>evaluationDate = None\<rparr>) = Inr b"
    using example_bond by blast
  have sc: "sorted (map date (bond_cashflows (ql ?m) b))"
    unfolding example_legs by simp
  have v: "(\<Sum>e\<leftarrow>filter (\<lambda>e. dates (2022, 1, 1) 0 \<le> date e \<and> date e < dates (2022, 1, 1) 3) ?c.
      amount e) = 20"
    by code_simp
  from cashflows_sum_within_horizon [OF b sc] show ?thesis
    unfolding example_legs example_dates example_t_length v .
qed

text \<open>
  C10.  For a bond of the table whose legs are in date order, the events dated before
  \<open>dates(0)\<close> are in no bucket and raise nothing: \<open>cashflows\<close> and \<open>redemptions\<close>
  return the vector of the bucket sums of the leg without these events.
\<close>

theorem events_before_valuation_dropped:
  assumes "fst (fixed_rate_bond m bond_id s) = Inr bond"
    and "sorted (map date (bond_cashflows (ql m) bond))"
    and "sorted (map date (bond_redemptions (ql m) bond))"
  shows "fst (cashflows m bond_id s) =
      Inr (map (bucket_sum (date_init m)
                 (filter (\<lambda>e. dates (date_init m) 0 \<le> date e) (bond_cashflows (ql m) bond)))
            [0..<t_length (date_init m) (date_end m)])
    \<and> fst (redemptions m bond_id s) =
      Inr (map (bucket_sum (date_init m)
                 (filter (\<lambda>e. dates (date_init m) 0 \<le> date e) (bond_redemptions (ql m) bond)))
            [0..<t_length (date_init m) (date_end m)])"
  using cashflows_sorted [OF assms(1,2)] redemptions_sorted [OF assms(1,3)]
  by (simp add: bucket_sum_from_init)

theorem events_before_valuation_dropped_witness:
  "fst (cashflows
      (example_model (2025, 1, 1)
         [\<lparr>date = (2020, 6, 1), amount = 10\<rparr>, \<lparr>date = (2021, 12, 31), amount = 10\<rparr>,
          \<lparr>date = (2023, 6, 1), amount = 10\<rparr>]
         [\<lparr>date = (2021, 6, 1), amount = 235000\<rparr>])
      1 \<lparr>evaluationDate = None\<rparr>) = Inr [0, 10, 0]
   \<and> fst (redemptions
      (example_model (2025, 1, 1)
         [\<lparr>date = (2020, 6, 1), amount = 10\<rparr>, \<lparr>date = (2021, 12, 31), amount = 10\<rparr>,
          \<lparr>date = (2023, 6, 1), amount = 10\<rparr>]
         [\<lparr>date = (2021, 6, 1), amount = 235000\<rparr>])
      1 \<lparr>evaluationDate = None\<rparr>) = Inr [0, 0, 0]"
proof -
  let ?c = "[\<lparr>date = (2020, 6, 1), amount = 10\<rparr>, \<lparr>date = (2021, 12, 31), amount = 10\<rparr>,
          \<lparr>date = (2023, 6, 1), amount = 10\<rparr>]"
  let ?r = "[\<lparr>date = (2021, 6, 1), amount = 235000\<rparr>]"
  let ?m = "example_model (2025, 1, 1) ?c ?r"
  obtain b where b: "fst (fixed_rate_bond ?m 1 \<lparr>evaluationDate = None\<rparr>) = Inr b"
    using example_bond by blast
  have sc: "sorted (map date (bond_cashflows (ql ?m) b))"
    unfolding example_legs by simp
  have sr: "sorted (map date (bond_redemptions (ql ?m) b))"
    unfolding example_legs by simp
  have vc: "map (bucket_sum (2022, 1, 1)
      (filter (\<lambda>e. dates (2022, 1, 1) 0 \<le> date e) ?c)) [0..<3] = [0, 10, 0]"
    by code_simp
  have vr: "map (bucket_sum (2022, 1, 1)
      (filter (\<lambda>e. dates (2022, 1, 1) 0 \<le> date e) ?r)) [0..<3] = [0, 0, 0]"
    by code_simp
  from events_before_valuation_dropped [OF b sc sr] show ?thesis
    unfolding example_legs example_dates example_t_length vc vr .
qed

text \<open>
  C6, as the code has it, for \<open>cashflows\<close>.  For a bond of the table, \<open>cashflows\<close>
  raises \<open>AssertionError\<close> exactly when the horizon is not empty and the events that
  come before the first event dated at or after \<open>dates(N)\<close> are not in date order;
  the events after that one are never compared.
\<close>

theorem cashflows_assertion_iff:
  assumes "fst (fixed_rate_bond m bond_id s) = Inr bond"
  shows "fst (cashflows m bond_id s) = Inl AssertionError \<longleftrightarrow>
    0 < t_length (date_init m) (date_end m)
    \<and> \<not> sorted (map date
          (takeWhile (\<lambda>e. date e < dates (date_init m) (t_length (date_init m) (date_end m)))
            (bond_cashflows (ql m) bond)))"
proof -
  let ?run = "cashflows_for (date_init m) (bond_cashflows (ql m) bond)
      [0..<t_length (date_init m) (date_end m)]
      (replicate (t_length (date_init m) (date_end m)) 0, 0)"
  have "fst (cashflows m bond_id s) = Inl AssertionError \<longleftrightarrow> ?run = Inl AssertionError"
  proof (cases ?run)
    case (Inl e)
    then show ?thesis by (simp add: cashflows_Inr [OF assms])
  next
    case (Inr st)
    then show ?thesis by (simp add: cashflows_Inr [OF assms])
  qed
  then show ?thesis
    by (simp only: cashflows_for_error_iff)
qed

theorem cashflows_assertion_iff_witness:
  "fst (cashflows
      (example_model (2025, 1, 1)
         [\<lparr>date = (2023, 6, 1), amount = 10\<rparr>, \<lparr>date = (2022, 6, 1), amount = 10\<rparr>] [])
      1 \<lparr>evaluationDate = None\<rparr>) = Inl AssertionError"
proof -
  let ?c = "[\<lparr>date = (2023, 6, 1), amount = 10\<rparr>, \<lparr>date = (2022, 6, 1), amount = 10\<rparr>]"
  let ?m = "example_model (2025, 1, 1) ?c []"
  obtain b where b: "fst (fixed_rate_bond ?m 1 \<lparr>evaluationDate = None\<rparr>) = Inr b"
    using example_bond by blast
  have v: "0 < (3::nat) \<and> \<not> sorted (map date
      (takeWhile (\<lambda>e. date e < dates (2022, 1, 1) 3) ?c))"
    by code_simp
  from cashflows_assertion_iff [OF b] v show ?thesis
    unfolding example_legs example_dates example_t_length by blast
qed

text \<open>
  C6 as stated does not hold: a cashflow leg whose two events are dated after the
  horizon, in decreasing order, and a redemption leg whose two events are dated inside
  the horizon, in decreasing order, are both bucketed without an error.
\<close>

theorem order_check_counterexample:
  "date \<lparr>date = (2025, 6, 1), amount = 5\<rparr> < date \<lparr>date = (2026, 1, 1), amount = 5\<rparr>
   \<and> fst (cashflows
      (example_model (2025, 1, 1)
         [\<lparr>date = (2026, 1, 1), amount = 5\<rparr>, \<lparr>date = (2025, 6, 1), amount = 5\<rparr>]
         [\<lparr>date = (2023, 6, 1), amount = 100\<rparr>, \<lparr>date = (2022, 6, 1), amount = 5\<rparr>])
      1 \<lparr>evaluationDate = None\<rparr>) = Inr [0, 0, 0]
   \<and> date \<lparr>date = (2022, 6, 1), amount = 5\<rparr> < date \<lparr>date = (2023, 6, 1), amount = 100\<rparr>
   \<and> fst (redemptions
      (example_model (2025, 1, 1)
         [\<lparr>date = (2026, 1, 1), amount = 5\<rparr>, \<lparr>date = (2025, 6, 1), amount = 5\<rparr>]
         [\<lparr>date = (2023, 6, 1), amount = 100\<rparr>, \<lparr>date = (2022, 6, 1), amount = 5\<rparr>])
      1 \<lparr>evaluationDate = None\<rparr>) = Inr [0, 100, 0]"
proof -
  let ?c = "[\<lparr>date = (2026, 1, 1), amount = 5\<rparr>, \<lparr>date = (2025, 6, 1), amount = 5\<rparr>]"
  let ?r = "[\<lparr>date = (2023, 6, 1), amount = 100\<rparr>, \<lparr>date = (2022, 6, 1), amount = 5\<rparr>]"
  let ?m = "example_model (2025, 1, 1) ?c ?r"
  obtain b where b: "fst (fixed_rate_bond ?m 1 \<lparr>evaluationDate = None\<rparr>) = Inr b"
    using example_bond by blast
  have vc: "cashflows_for (2022, 1, 1) ?c [0..<3] (replicate 3 0, 0) = Inr ([0, 0, 0], 0)"
    by code_simp
  have vr: "redemptions_for (2022, 1, 1) ?r [0..<3] (replicate 3 0, 0) = ([0, 100, 0], 2)"
    by code_simp
  have "fst (cashflows ?m 1 \<lparr>evaluationDate = None\<rparr>) = Inr [0, 0, 0]"
    unfolding cashflows_Inr [OF b] example_legs example_dates example_t_length vc by simp
  moreover have "fst (redemptions ?m 1 \<lparr>evaluationDate = None\<rparr>) = Inr [0, 100, 0]"
    unfolding redemptions_Inr [OF b] example_legs example_dates example_t_length vr by simp
  ultimately show ?thesis
    by simp
qed


section \<open>The portfolio totals\<close>

lemma cashflows_Inl:
  assumes "fst (fixed_rate_bond m i s) = Inl e"
  shows "fst (cashflows m i s) = Inl e"
proof -
  obtain s' where "fixed_rate_bond m i s = (Inl e, s')"
    using assms by (cases "fixed_rate_bond m i s") simp
  then show ?thesis
    by (simp add: cashflows_def)
qed

lemma cashflows_value: "fst (cashflows m i s) = fst (cashflows m i s')"
proof (cases "fst (fixed_rate_bond m i s)")
  case (Inl e)
  moreover from Inl have "fst (fixed_rate_bond m i s') = Inl e"
    using fixed_rate_bond_value [of m i s s'] by simp
  ultimately show ?thesis
    by (simp add: cashflows_Inl)
next
  case (Inr b)
  moreover from Inr have "fst (fixed_rate_bond m i s') = Inr b"
    using fixed_rate_bond_value [of m i s s'] by simp
  ultimately show ?thesis
    by (simp add: cashflows_Inr)
qed

lemma cashflows_total_index_eq:
  assumes "\<And>i. i \<in> set is \<Longrightarrow> fst (cashflows m i s0) = Inr (c i)"
    and "t < length result"
  shows "fst (cashflows_total_index m t is result s) =
    Inr (result[t := result ! t + (\<Sum>i\<leftarrow>is. c i ! t)])"
  using assms
proof (induction "is" arbitrary: result s)
  case Nil
  then show ?case by simp
next
  case (Cons i "is")
  have "fst (cashflows m i s) = Inr (c i)"
    using Cons.prems(1) [of i] cashflows_value [of m i s s0] by simp
  then obtain s' where step: "cashflows m i s = (Inr (c i), s')"
    by (cases "cashflows m i s") simp
  let ?r1 = "result[t := result ! t + c i ! t]"
  have "fst (cashflows_total_index m t is ?r1 s') =
      Inr (?r1[t := ?r1 ! t + (\<Sum>i\<leftarrow>is. c i ! t)])"
    using Cons.prems by (intro Cons.IH) simp_all
  then show ?case
    using Cons.prems(2) by (simp add: step add.assoc)
qed

lemma cashflows_total_for_eq:
  assumes "\<And>i. i \<in> set (index (bond_data m)) \<Longrightarrow> fst (cashflows m i s0) = Inr (c i)"
    and "b \<le> length result"
  shows "fst (cashflows_total_for m [a..<b] result s) =
    Inr (map (\<lambda>t. if a \<le> t \<and> t < b
                   then result ! t + (\<Sum>i\<leftarrow>index (bond_data m). c i ! t) else result ! t)
          [0..<length result])"
  using assms(2)
proof (induction "b - a" arbitrary: a result s)
  case 0
  then have ba: "b \<le> a" by simp
  then have "map (\<lambda>t. if a \<le> t \<and> t < b
        then result ! t + (\<Sum>i\<leftarrow>index (bond_data m). c i ! t) else result ! t)
      [0..<length result] = map (\<lambda>t. result ! t) [0..<length result]"
    by (intro map_cong) auto
  with ba show ?case by (simp add: map_nth)
next
  case (Suc n)
  then have ab: "a < b" by simp
  let ?S = "\<lambda>t. \<Sum>i\<leftarrow>index (bond_data m). c i ! t"
  let ?r1 = "result[a := result ! a + ?S a]"
  have "fst (cashflows_total_index m a (index (bond_data m)) result s) = Inr ?r1"
    using assms(1) Suc.prems ab by (intro cashflows_total_index_eq) simp_all
  then obtain s' where step:
    "cashflows_total_index m a (index (bond_data m)) result s = (Inr ?r1, s')"
    by (cases "cashflows_total_index m a (index (bond_data m)) result s") simp
  have n: "n = b - Suc a"
    using Suc.hyps(2) by simp
  have IH: "fst (cashflows_total_for m [Suc a..<b] ?r1 s') =
    Inr (map (\<lambda>t. if Suc a \<le> t \<and> t < b then ?r1 ! t + ?S t else ?r1 ! t) [0..<length ?r1])"
    using Suc.prems by (intro Suc.hyps(1) [OF n]) simp
  have "[a..<b] = a # [Suc a..<b]"
    using ab by (simp add: upt_conv_Cons)
  then have "fst (cashflows_total_for m [a..<b] result s) =
      fst (cashflows_total_for m [Suc a..<b] ?r1 s')"
    by (simp add: step)
  also have "\<dots> = Inr (map (\<lambda>t. if a \<le> t \<and> t < b then result ! t + ?S t else result ! t)
      [0..<length result])"
    unfolding IH
  proof (intro arg_cong [where f = Inr] nth_equalityI)
    show "length (map (\<lambda>t. if Suc a \<le> t \<and> t < b then ?r1 ! t + ?S t else ?r1 ! t)
          [0..<length ?r1])
        = length (map (\<lambda>t. if a \<le> t \<and> t < b then result ! t + ?S t else result ! t)
          [0..<length result])"
      by simp
  next
    fix k
    assume "k < length (map (\<lambda>t. if Suc a \<le> t \<and> t < b then ?r1 ! t + ?S t else ?r1 ! t)
          [0..<length ?r1])"
    then have k: "k < length result" by simp
    show "map (\<lambda>t. if Suc a \<le> t \<and> t < b then ?r1 ! t + ?S t else ?r1 ! t)
          [0..<length ?r1] ! k
        = map (\<lambda>t. if a \<le> t \<and> t < b then result ! t + ?S t else result ! t)
          [0..<length result] ! k"
    proof (cases "k = a")
      case True
      with k ab show ?thesis by simp
    next
      case False
      with k show ?thesis by auto
    qed
  qed
  finally show ?case .
qed

lemma cashflows_total_eq:
  assumes "\<And>i. i \<in> set (index (bond_data m)) \<Longrightarrow> fst (cashflows m i s) = Inr (c i)"
  shows "fst (cashflows_total m s) =
    Inr (map (\<lambda>t. \<Sum>i\<leftarrow>index (bond_data m). c i ! t) [0..<t_length (date_init m) (date_end m)])"
proof -
  let ?N = "t_length (date_init m) (date_end m)"
  have "fst (cashflows_total m s) =
    Inr (map (\<lambda>t. if 0 \<le> t \<and> t < ?N
                   then replicate ?N 0 ! t + (\<Sum>i\<leftarrow>index (bond_data m). c i ! t)
                   else replicate ?N 0 ! t)
          [0..<length (replicate ?N (0::real))])"
    unfolding cashflows_total_def using assms by (intro cashflows_total_for_eq) simp_all
  also have "\<dots> = Inr (map (\<lambda>t. \<Sum>i\<leftarrow>index (bond_data m). c i ! t) [0..<?N])"
    by (intro arg_cong [where f = Inr] map_cong) simp_all
  finally show ?thesis .
qed

lemma redemptions_Inl:
  assumes "fst (fixed_rate_bond m i s) = Inl e"
  shows "fst (redemptions m i s) = Inl e"
proof -
  obtain s' where "fixed_rate_bond m i s = (Inl e, s')"
    using assms by (cases "fixed_rate_bond m i s") simp
  then show ?thesis
    by (simp add: redemptions_def)
qed

lemma redemptions_value: "fst (redemptions m i s) = fst (redemptions m i s')"
proof (cases "fst (fixed_rate_bond m i s)")
  case (Inl e)
  moreover from Inl have "fst (fixed_rate_bond m i s') = Inl e"
    using fixed_rate_bond_value [of m i s s'] by simp
  ultimately show ?thesis
    by (simp add: redemptions_Inl)
next
  case (Inr b)
  moreover from Inr have "fst (fixed_rate_bond m i s') = Inr b"
    using fixed_rate_bond_value [of m i s s'] by simp
  ultimately show ?thesis
    by (simp add: redemptions_Inr)
qed

lemma redemptions_total_index_eq:
  assumes "\<And>i. i \<in> set is \<Longrightarrow> fst (redemptions m i s0) = Inr (c i)"
    and "t < length result"
  shows "fst (redemptions_total_index m t is result s) =
    Inr (result[t := result ! t + (\<Sum>i\<leftarrow>is. c i ! t)])"
  using assms
proof (induction "is" arbitrary: result s)
  case Nil
  then show ?case by simp
next
  case (Cons i "is")
  have "fst (redemptions m i s) = Inr (c i)"
    using Cons.prems(1) [of i] redemptions_value [of m i s s0] by simp
  then obtain s' where step: "redemptions m i s = (Inr (c i), s')"
    by (cases "redemptions m i s") simp
  let ?r1 = "result[t := result ! t + c i ! t]"
  have "fst (redemptions_total_index m t is ?r1 s') =
      Inr (?r1[t := ?r1 ! t + (\<Sum>i\<leftarrow>is. c i ! t)])"
    using Cons.prems by (intro Cons.IH) simp_all
  then show ?case
    using Cons.prems(2) by (simp add: step add.assoc)
qed

lemma redemptions_total_for_eq:
  assumes "\<And>i. i \<in> set (index (bond_data m)) \<Longrightarrow> fst (redemptions m i s0) = Inr (c i)"
    and "b \<le> length result"
  shows "fst (redemptions_total_for m [a..<b] result s) =
    Inr (map (\<lambda>t. if a \<le> t \<and> t < b
                   then result ! t + (\<Sum>i\<leftarrow>index (bond_data m). c i ! t) else result ! t)
          [0..<length result])"
  using assms(2)
proof (induction "b - a" arbitrary: a result s)
  case 0
  then have ba: "b \<le> a" by simp
  then have "map (\<lambda>t. if a \<le> t \<and> t < b
        then result ! t + (\<Sum>i\<leftarrow>index (bond_data m). c i ! t) else result ! t)
      [0..<length result] = map (\<lambda>t. result ! t) [0..<length result]"
    by (intro map_cong) auto
  with ba show ?case by (simp add: map_nth)
next
  case (Suc n)
  then have ab: "a < b" by simp
  let ?S = "\<lambda>t. \<Sum>i\<leftarrow>index (bond_data m). c i ! t"
  let ?r1 = "result[a := result ! a + ?S a]"
  have "fst (redemptions_total_index m a (index (bond_data m)) result s) = Inr ?r1"
    using assms(1) Suc.prems ab by (intro redemptions_total_index_eq) simp_all
  then obtain s' where step:
    "redemptions_total_index m a (index (bond_data m)) result s = (Inr ?r1, s')"
    by (cases "redemptions_total_index m a (index (bond_data m)) result s") simp
  have n: "n = b - Suc a"
    using Suc.hyps(2) by simp
  have IH: "fst (redemptions_total_for m [Suc a..<b] ?r1 s') =
    Inr (map (\<lambda>t. if Suc a \<le> t \<and> t < b then ?r1 ! t + ?S t else ?r1 ! t) [0..<length ?r1])"
    using Suc.prems by (intro Suc.hyps(1) [OF n]) simp
  have "[a..<b] = a # [Suc a..<b]"
    using ab by (simp add: upt_conv_Cons)
  then have "fst (redemptions_total_for m [a..<b] result s) =
      fst (redemptions_total_for m [Suc a..<b] ?r1 s')"
    by (simp add: step)
  also have "\<dots> = Inr (map (\<lambda>t. if a \<le> t \<and> t < b then result ! t + ?S t else result ! t)
      [0..<length result])"
    unfolding IH
  proof (intro arg_cong [where f = Inr] nth_equalityI)
    show "length (map (\<lambda>t. if Suc a \<le> t \<and> t < b then ?r1 ! t + ?S t else ?r1 ! t)
          [0..<length ?r1])
        = length (map (\<lambda>t. if a \<le> t \<and> t < b then result ! t + ?S t else result ! t)
          [0..<length result])"
      by simp
  next
    fix k
    assume "k < length (map (\<lambda>t. if Suc a \<le> t \<and> t < b then ?r1 ! t + ?S t else ?r1 ! t)
          [0..<length ?r1])"
    then have k: "k < length result" by simp
    show "map (\<lambda>t. if Suc a \<le> t \<and> t < b then ?r1 ! t + ?S t else ?r1 ! t)
          [0..<length ?r1] ! k
        = map (\<lambda>t. if a \<le> t \<and> t < b then result ! t + ?S t else result ! t)
          [0..<length result] ! k"
    proof (cases "k = a")
      case True
      with k ab show ?thesis by simp
    next
      case False
      with k show ?thesis by auto
    qed
  qed
  finally show ?case .
qed

lemma redemptions_total_eq:
  assumes "\<And>i. i \<in> set (index (bond_data m)) \<Longrightarrow> fst (redemptions m i s) = Inr (c i)"
  shows "fst (redemptions_total m s) =
    Inr (map (\<lambda>t. \<Sum>i\<leftarrow>index (bond_data m). c i ! t) [0..<t_length (date_init m) (date_end m)])"
proof -
  let ?N = "t_length (date_init m) (date_end m)"
  have "fst (redemptions_total m s) =
    Inr (map (\<lambda>t. if 0 \<le> t \<and> t < ?N
                   then replicate ?N 0 ! t + (\<Sum>i\<leftarrow>index (bond_data m). c i ! t)
                   else replicate ?N 0 ! t)
          [0..<length (replicate ?N (0::real))])"
    unfolding redemptions_total_def using assms by (intro redemptions_total_for_eq) simp_all
  also have "\<dots> = Inr (map (\<lambda>t. \<Sum>i\<leftarrow>index (bond_data m). c i ! t) [0..<?N])"
    by (intro arg_cong [where f = Inr] map_cong) simp_all
  finally show ?thesis .
qed


lemma fixed_rate_bond_index:
  assumes "i \<in> set (index (bond_data m))"
  shows "\<exists>b. fst (fixed_rate_bond m i s) = Inr b"
proof -
  obtain row where "loc (bond_data m) i = Inr row"
    using loc_index [OF assms] by blast
  then show ?thesis
    by (simp add: fixed_rate_bond_Inr)
qed

text \<open>
  C4.  When \<open>cashflows\<close> and \<open>redemptions\<close> return a vector for every bond id of the
  index, \<open>cashflows_total\<close> and \<open>redemptions_total\<close> return the vectors whose entry
  \<open>t\<close>, for every period \<open>t\<close> below the horizon length, is the sum over the bond ids
  of the entry \<open>t\<close> of the bond's vector.
\<close>

theorem totals_elementwise_sum:
  assumes "\<And>i. i \<in> set (index (bond_data m)) \<Longrightarrow> fst (cashflows m i s) = Inr (c i)"
    and "\<And>i. i \<in> set (index (bond_data m)) \<Longrightarrow> fst (redemptions m i s) = Inr (r i)"
  shows "fst (cashflows_total m s) =
      Inr (map (\<lambda>t. \<Sum>i\<leftarrow>index (bond_data m). c i ! t)
            [0..<t_length (date_init m) (date_end m)])
    \<and> fst (redemptions_total m s) =
      Inr (map (\<lambda>t. \<Sum>i\<leftarrow>index (bond_data m). r i ! t)
            [0..<t_length (date_init m) (date_end m)])"
  using cashflows_total_eq [of m s c, OF assms(1)] redemptions_total_eq [of m s r, OF assms(2)]
  by simp

theorem totals_elementwise_sum_witness:
  "fst (cashflows_total
      (example_model (2025, 1, 1)
         [\<lparr>date = (2022, 6, 1), amount = 10\<rparr>, \<lparr>date = (2023, 6, 1), amount = 10\<rparr>]
         [\<lparr>date = (2024, 1, 1), amount = 235000\<rparr>])
      \<lparr>evaluationDate = None\<rparr>) = Inr [20, 20, 0]
   \<and> fst (redemptions_total
      (example_model (2025, 1, 1)
         [\<lparr>date = (2022, 6, 1), amount = 10\<rparr>, \<lparr>date = (2023, 6, 1), amount = 10\<rparr>]
         [\<lparr>date = (2024, 1, 1), amount = 235000\<rparr>])
      \<lparr>evaluationDate = None\<rparr>) = Inr [0, 0, 470000]"
proof -
  let ?c = "[\<lparr>date = (2022, 6, 1), amount = 10\<rparr>, \<lparr>date = (2023, 6, 1), amount = 10\<rparr>]"
  let ?r = "[\<lparr>date = (2024, 1, 1), amount = 235000\<rparr>]"
  let ?m = "example_model (2025, 1, 1) ?c ?r"
  let ?s = "\<lparr>evaluationDate = None\<rparr>"
  have vc: "map (bucket_sum (2022, 1, 1) ?c) [0..<3] = [10, 10, 0]"
    by code_simp
  have vr: "map (bucket_sum (2022, 1, 1) ?r) [0..<3] = [0, 0, 235000]"
    by code_simp
  have hc: "fst (cashflows ?m i ?s) = Inr [10, 10, 0]"
    if i: "i \<in> set (index (bond_data ?m))" for i
  proof -
    obtain b where b: "fst (fixed_rate_bond ?m i ?s) = Inr b"
      using fixed_rate_bond_index [OF i] by blast
    have "sorted (map date (bond_cashflows (ql ?m) b))"
      unfolding example_legs by simp
    from cashflows_sorted [OF b this] show ?thesis
      unfolding example_legs example_dates example_t_length vc .
  qed
  have hr: "fst (redemptions ?m i ?s) = Inr [0, 0, 235000]"
    if i: "i \<in> set (index (bond_data ?m))" for i
  proof -
    obtain b where b: "fst (fixed_rate_bond ?m i ?s) = Inr b"
      using fixed_rate_bond_index [OF i] by blast
    have "sorted (map date (bond_redemptions (ql ?m) b))"
      unfolding example_legs by simp
    from redemptions_sorted [OF b this] show ?thesis
      unfolding example_legs example_dates example_t_length vr .
  qed
  have idx: "index (bond_data ?m) = [1, 3]"
    by (simp add: example_model_def example_bond_data_def index_def)
  have sc: "map (\<lambda>t. \<Sum>i\<leftarrow>[1, 3 :: nat]. [10, 10, 0 :: real] ! t) [0..<3] = [20, 20, 0]"
    by code_simp
  have sr: "map (\<lambda>t. \<Sum>i\<leftarrow>[1, 3 :: nat]. [0, 0, 235000 :: real] ! t) [0..<3] = [0, 0, 470000]"
    by code_simp
  from totals_elementwise_sum [of ?m ?s "\<lambda>i. [10, 10, 0]" "\<lambda>i. [0, 0, 235000]", OF hc hr]
  show ?thesis
    unfolding idx example_dates example_t_length sc sr .
qed


section \<open>Market values\<close>

lemma market_values_index_eq:
  assumes "set is \<subseteq> set (index (bond_data m))"
  shows "fst (market_values_index m is s) =
    Inr (map (\<lambda>i. bond_notional (ql m) (Some (date_init m)) (projr (fst (fixed_rate_bond m i s0)))
                 * bond_cleanPrice (ql m) (Some (date_init m))
                     (projr (fst (fixed_rate_bond m i s0))) / 100) is)"
  using assms
proof (induction "is" arbitrary: s)
  case Nil
  then show ?case by simp
next
  case (Cons i "is")
  then have "i \<in> set (index (bond_data m))" by simp
  then obtain row where row: "loc (bond_data m) i = Inr row"
    using loc_index by blast
  let ?s1 = "s\<lparr>evaluationDate := Some (date_init m)\<rparr>"
  obtain b1 where b1: "fixed_rate_bond m i s = (Inr b1, ?s1)"
    by (simp add: fixed_rate_bond_Inr [OF row])
  obtain b2 where b2: "fixed_rate_bond m i ?s1 = (Inr b2, ?s1)"
    by (simp add: fixed_rate_bond_Inr [OF row])
  have e1: "projr (fst (fixed_rate_bond m i s0)) = b1"
    using fixed_rate_bond_value [of m i s0 s] b1 by simp
  have e2: "projr (fst (fixed_rate_bond m i s0)) = b2"
    using fixed_rate_bond_value [of m i s0 ?s1] b2 by simp
  have "fst (market_values_index m is ?s1) =
    Inr (map (\<lambda>i. bond_notional (ql m) (Some (date_init m)) (projr (fst (fixed_rate_bond m i s0)))
                 * bond_cleanPrice (ql m) (Some (date_init m))
                     (projr (fst (fixed_rate_bond m i s0))) / 100) is)"
    using Cons.prems by (intro Cons.IH) simp
  then obtain s3 where rest: "market_values_index m is ?s1 =
    (Inr (map (\<lambda>i. bond_notional (ql m) (Some (date_init m)) (projr (fst (fixed_rate_bond m i s0)))
                 * bond_cleanPrice (ql m) (Some (date_init m))
                     (projr (fst (fixed_rate_bond m i s0))) / 100) is), s3)"
    by (cases "market_values_index m is ?s1") simp
  show ?case
    using e1 e2 by (simp add: b1 b2 rest)
qed

text \<open>
  C9.  \<open>market_values\<close> returns one value for each bond id of the index, in order.
  The value of a bond is its notional times its clean price divided by 100, both
  read from the library at the valuation date for the bond that \<open>fixed_rate_bond\<close>
  builds, whose pricing engine discounts on the risk-free curve shifted by the
  \<open>z_spread\<close> of the bond's row.
\<close>

theorem market_values_notional_cleanPrice:
  "\<exists>vs. fst (market_values m s) = Inr vs
     \<and> length vs = length (index (bond_data m))
     \<and> (\<forall>k<length (index (bond_data m)). \<exists>row b.
           loc (bond_data m) (index (bond_data m) ! k) = Inr row
           \<and> fst (fixed_rate_bond m (index (bond_data m) ! k) s) = Inr b
           \<and> pricingEngine b = DiscountingBondEngine
               (ZeroSpreadedTermStructure (fst (riskfree_curve m s)) (z_spread row)
                  Compounded Annual)
           \<and> vs ! k = bond_notional (ql m) (Some (dates (date_init m) 0)) b
                      * bond_cleanPrice (ql m) (Some (dates (date_init m) 0)) b / 100)"
proof -
  let ?v = "\<lambda>i. bond_notional (ql m) (Some (date_init m)) (projr (fst (fixed_rate_bond m i s)))
      * bond_cleanPrice (ql m) (Some (date_init m)) (projr (fst (fixed_rate_bond m i s))) / 100"
  let ?ix = "index (bond_data m)"
  have vs: "fst (market_values m s) = Inr (map ?v ?ix)"
    unfolding market_values_def by (intro market_values_index_eq) simp
  have "\<exists>row b. loc (bond_data m) (?ix ! k) = Inr row
      \<and> fst (fixed_rate_bond m (?ix ! k) s) = Inr b
      \<and> pricingEngine b = DiscountingBondEngine
          (ZeroSpreadedTermStructure (fst (riskfree_curve m s)) (z_spread row) Compounded Annual)
      \<and> map ?v ?ix ! k = bond_notional (ql m) (Some (dates (date_init m) 0)) b
          * bond_cleanPrice (ql m) (Some (dates (date_init m) 0)) b / 100"
    if k: "k < length ?ix" for k
  proof -
    have "?ix ! k \<in> set ?ix"
      using k by (rule nth_mem)
    then obtain row where row: "loc (bond_data m) (?ix ! k) = Inr row"
      using loc_index by blast
    show ?thesis
      using k by (simp add: row fixed_rate_bond_Inr [OF row])
  qed
  with vs show ?thesis
    by (intro exI [of _ "map ?v ?ix"]) simp
qed

theorem market_values_notional_cleanPrice_witness:
  "fst (market_values (example_model (2025, 1, 1) [] []) \<lparr>evaluationDate = None\<rparr>)
     = Inr [230300, 783020]"
proof -
  let ?m = "example_model (2025, 1, 1) [] []"
  let ?s = "\<lparr>evaluationDate = None\<rparr>"
  have idx: "index (bond_data ?m) = [1, 3]"
    by (simp add: example_model_def example_bond_data_def index_def)
  have q: "bond_notional (ql (example_model d c r)) ev b = faceAmount b"
    "bond_cleanPrice (ql (example_model d c r)) ev b = 98" for ev b d c r
    by (simp_all add: example_model_def example_ql_def)
  have f1: "faceAmount b = 235000" if "fst (fixed_rate_bond ?m 1 ?s) = Inr b" for b
  proof -
    have "loc (bond_data ?m) 1 = Inr (snd (example_bond_data ! 0))"
      by (simp add: example_model_def example_bond_data_def loc_def)
    from fixed_rate_bond_Inr [OF this, of ?s] that show ?thesis
      by (auto simp: example_bond_data_def)
  qed
  have f3: "faceAmount b = 799000" if "fst (fixed_rate_bond ?m 3 ?s) = Inr b" for b
  proof -
    have "loc (bond_data ?m) 3 = Inr (snd (example_bond_data ! 1))"
      by (simp add: example_model_def example_bond_data_def loc_def)
    from fixed_rate_bond_Inr [OF this, of ?s] that show ?thesis
      by (auto simp: example_bond_data_def)
  qed
  from market_values_notional_cleanPrice [of ?m ?s]
  obtain vs where vs: "fst (market_values ?m ?s) = Inr vs"
    and len: "length vs = length [1, 3 :: nat]"
    and val: "\<forall>k<length [1, 3 :: nat]. \<exists>row b.
           loc (bond_data ?m) ([1, 3] ! k) = Inr row
           \<and> fst (fixed_rate_bond ?m ([1, 3] ! k) ?s) = Inr b
           \<and> pricingEngine b = DiscountingBondEngine
               (ZeroSpreadedTermStructure (fst (riskfree_curve ?m ?s)) (z_spread row)
                  Compounded Annual)
           \<and> vs ! k = bond_notional (ql ?m) (Some (dates (date_init ?m) 0)) b
                      * bond_cleanPrice (ql ?m) (Some (dates (date_init ?m) 0)) b / 100"
    unfolding idx by blast
  have "0 < length [1, 3 :: nat]"
    by simp
  with val obtain b0 where "fst (fixed_rate_bond ?m ([1, 3] ! 0) ?s) = Inr b0"
    and "vs ! 0 = bond_notional (ql ?m) (Some (dates (date_init ?m) 0)) b0
                      * bond_cleanPrice (ql ?m) (Some (dates (date_init ?m) 0)) b0 / 100"
    by blast
  then have v0: "vs ! 0 = 230300"
    using f1 [of b0] by (simp add: q)
  have "1 < length [1, 3 :: nat]"
    by simp
  with val obtain b1 where "fst (fixed_rate_bond ?m ([1, 3] ! 1) ?s) = Inr b1"
    and "vs ! 1 = bond_notional (ql ?m) (Some (dates (date_init ?m) 0)) b1
                      * bond_cleanPrice (ql ?m) (Some (dates (date_init ?m) 0)) b1 / 100"
    by blast
  then have v1: "vs ! 1 = 783020"
    using f3 [of b1] by (simp add: q)
  have "vs = [vs ! 0, vs ! 1]"
    using len by (intro nth_equalityI) (auto simp: less_Suc_eq)
  with vs v0 v1 show ?thesis
    by simp
qed

end
